theory Spec2Isabelle
  imports Complex_Main "HOL-Library.Multiset"
begin

section \<open>The container of \<^verbatim>\<open>UnorderedMap.h\<close>\<close>

text \<open>
  \<^verbatim>\<open>UnorderedMap<KeyType, ValueType, Hash>\<close> keeps its elements in one
  \<^verbatim>\<open>std::forward_list<Element>\<close> and indexes them through
  \<^verbatim>\<open>std::vector<std::forward_list<iterator>>\<close>: every entry of a bucket list is an
  iterator to the chain position in front of the element it indexes.

  The chain is modelled as the list of its nodes, each with the address of the node, so that
  an iterator keeps denoting the same node while other nodes are linked in or out.
  Everything the C++ standard leaves undefined (dereferencing or advancing \<^verbatim>\<open>end()\<close>,
  using an iterator to a node that is not in the list, \<^verbatim>\<open>erase_after\<close> with nothing
  behind the position, \<^verbatim>\<open>h % 0\<close>, indexing the vector out of range) is the error value
  \<open>Undefined_behaviour\<close>; the exception in the body of \<^verbatim>\<open>at\<close> is
  \<open>Out_of_range\<close>; a call that the language does not allow, so that a program with it
  does not build, is \<open>Ill_formed\<close>.
  \<^verbatim>\<open>size_t\<close> values are natural numbers: \<^verbatim>\<open>size_\<close> and the bucket count are bounded
  by the number of allocated nodes, so no operation of the class can wrap them around.
\<close>

datatype error = Out_of_range | Undefined_behaviour | Ill_formed

definition and_then :: "error + 'a \<Rightarrow> ('a \<Rightarrow> error + 'b) \<Rightarrow> error + 'b" where
  "and_then r f = (case r of Inl e \<Rightarrow> Inl e | Inr x \<Rightarrow> f x)"

subsection \<open>\<^verbatim>\<open>std::forward_list<Element>\<close>\<close>

text \<open>An iterator of the element chain: the position before the first node, a node (by
  address), or the past-the-end position.\<close>

datatype iterator = Before_begin | Node nat | End

type_synonym ('k, 'v) Element = "'k \<times> 'v"

type_synonym ('k, 'v) forward_list = "(nat \<times> ('k, 'v) Element) list"

definition begin_fl :: "('k, 'v) forward_list \<Rightarrow> iterator" where
  "begin_fl ns = (case ns of [] \<Rightarrow> End | (a, _) # _ \<Rightarrow> Node a)"

fun next_node :: "nat \<Rightarrow> ('k, 'v) forward_list \<Rightarrow> error + iterator" where
  "next_node a [] = Inl Undefined_behaviour"
| "next_node a ((a', e) # ns) = (if a = a' then Inr (begin_fl ns) else next_node a ns)"

text \<open>\<^verbatim>\<open>std::next(it)\<close>\<close>

fun next_fl :: "('k, 'v) forward_list \<Rightarrow> iterator \<Rightarrow> error + iterator" where
  "next_fl ns Before_begin = Inr (begin_fl ns)"
| "next_fl ns (Node a) = next_node a ns"
| "next_fl ns End = Inl Undefined_behaviour"

text \<open>\<^verbatim>\<open>*it\<close>\<close>

fun deref :: "('k, 'v) forward_list \<Rightarrow> iterator \<Rightarrow> error + ('k, 'v) Element" where
  "deref ns (Node a) = (case map_of ns a of None \<Rightarrow> Inl Undefined_behaviour | Some e \<Rightarrow> Inr e)"
| "deref ns Before_begin = Inl Undefined_behaviour"
| "deref ns End = Inl Undefined_behaviour"

text \<open>The allocator hands out an address that no node of the list has.\<close>

fun fresh_addr :: "('k, 'v) forward_list \<Rightarrow> nat" where
  "fresh_addr [] = 0"
| "fresh_addr ((a, _) # ns) = max (Suc a) (fresh_addr ns)"

definition push_front :: "('k, 'v) Element \<Rightarrow> ('k, 'v) forward_list \<Rightarrow> ('k, 'v) forward_list" where
  "push_front p ns = (fresh_addr ns, p) # ns"

fun erase_after_node :: "nat \<Rightarrow> ('k, 'v) forward_list \<Rightarrow> error + ('k, 'v) forward_list" where
  "erase_after_node a [] = Inl Undefined_behaviour"
| "erase_after_node a ((a', e) # ns) =
     (if a = a' then (case ns of [] \<Rightarrow> Inl Undefined_behaviour | _ # r \<Rightarrow> Inr ((a', e) # r))
      else and_then (erase_after_node a ns) (\<lambda>r. Inr ((a', e) # r)))"

fun erase_after :: "('k, 'v) forward_list \<Rightarrow> iterator \<Rightarrow> error + ('k, 'v) forward_list" where
  "erase_after ns Before_begin = (case ns of [] \<Rightarrow> Inl Undefined_behaviour | _ # r \<Rightarrow> Inr r)"
| "erase_after ns (Node a) = erase_after_node a ns"
| "erase_after ns End = Inl Undefined_behaviour"

subsection \<open>The class\<close>

text \<open>A bucket list (\<^verbatim>\<open>std::forward_list<iterator>\<close>) is the list of its entries. An
  iterator into a bucket list lives only inside one member function, between two changes of
  that list's shape, so it is the number of \<^verbatim>\<open>++\<close> steps from \<^verbatim>\<open>before_begin()\<close>:
  offset \<open>i\<close> has entry \<open>i\<close> as its \<^verbatim>\<open>next\<close>, and \<^verbatim>\<open>next(it) == end()\<close> is
  \<open>i = length bucket\<close>. The members \<^verbatim>\<open>hash_\<close>, \<^verbatim>\<open>elements_\<close>, \<^verbatim>\<open>table_\<close> and
  \<^verbatim>\<open>size_\<close> are the fields \<open>hash_f\<close>, \<open>elements_f\<close>, \<open>table_f\<close> and \<open>size_f\<close>.\<close>

record ('k, 'v) UnorderedMap =
  hash_f :: "'k \<Rightarrow> nat"
  elements_f :: "('k, 'v) forward_list"
  table_f :: "iterator list list"
  size_f :: nat

text \<open>\<^verbatim>\<open>explicit UnorderedMap(Hash h = Hash{}) : size_(0), hash_(h) { table_.resize(1); }\<close>\<close>

definition UnorderedMap_init :: "('k \<Rightarrow> nat) \<Rightarrow> ('k, 'v) UnorderedMap" where
  "UnorderedMap_init h = \<lparr>hash_f = h, elements_f = [], table_f = [[]], size_f = 0\<rparr>"

text \<open>\<^verbatim>\<open>hash_(key) % table_.size()\<close>\<close>

definition bucket_of :: "('k, 'v) UnorderedMap \<Rightarrow> 'k \<Rightarrow> error + nat" where
  "bucket_of m key =
     (if table_f m = [] then Inl Undefined_behaviour
      else Inr (hash_f m key mod length (table_f m)))"

text \<open>The loop of \<^verbatim>\<open>Find_Previous_In_Bucket\<close> over the entries still ahead of \<^verbatim>\<open>it\<close>:
  \<^verbatim>\<open>while (next(it) != end && !(next(*next(it))->first == key)) ++it;\<close>\<close>

fun Find_Previous_loop ::
  "('k, 'v) forward_list \<Rightarrow> 'k \<Rightarrow> iterator list \<Rightarrow> error + nat" where
  "Find_Previous_loop ns key [] = Inr 0"
| "Find_Previous_loop ns key (a # as) =
     and_then (next_fl ns a) (\<lambda>e.
     and_then (deref ns e) (\<lambda>p.
       if fst p = key then Inr 0
       else and_then (Find_Previous_loop ns key as) (\<lambda>i. Inr (Suc i))))"

definition Find_Previous_In_Bucket ::
  "nat \<Rightarrow> 'k \<Rightarrow> ('k, 'v) forward_list \<Rightarrow> iterator list list \<Rightarrow> error + nat" where
  "Find_Previous_In_Bucket bucketIndex key ns tbl =
     (if bucketIndex < length tbl then Find_Previous_loop ns key (tbl ! bucketIndex)
      else Inl Undefined_behaviour)"

text \<open>\<^verbatim>\<open>iterator find(const KeyType& key)\<close>\<close>

definition find_map :: "'k \<Rightarrow> ('k, 'v) UnorderedMap \<Rightarrow> error + iterator" where
  "find_map key m =
     and_then (bucket_of m key) (\<lambda>bucketIndex.
     and_then (Find_Previous_In_Bucket bucketIndex key (elements_f m) (table_f m)) (\<lambda>it.
       if it = length (table_f m ! bucketIndex) then Inr End
       else next_fl (elements_f m) (table_f m ! bucketIndex ! it)))"

text \<open>\<^verbatim>\<open>const ValueType& at(const KeyType& key) const\<close>. \<open>at_body\<close> is what the
  statements of its body compute. No call reaches them: the member is \<^verbatim>\<open>const\<close>, so
  \<^verbatim>\<open>this\<close> points to a \<^verbatim>\<open>const UnorderedMap\<close> in its body, and the body calls
  \<^verbatim>\<open>Find_Previous_In_Bucket\<close>, a member that is not \<^verbatim>\<open>const\<close> and has no
  \<^verbatim>\<open>const\<close> overload. The call discards the qualifier, which the language forbids:
  the template member is ill-formed as soon as it is instantiated, that is, in every program
  that calls \<^verbatim>\<open>at\<close> (GCC builds it only under \<^verbatim>\<open>-fpermissive\<close>). \<open>at_key\<close>, the
  call of \<^verbatim>\<open>at\<close>, therefore has no value and no effect for any key and any map.
  The \<^verbatim>\<open>const\<close> overload of \<^verbatim>\<open>find\<close> has the same defect; \<open>find_map\<close> is the
  overload that is not \<^verbatim>\<open>const\<close>, which a call on a map that is not \<^verbatim>\<open>const\<close>
  selects.\<close>

definition at_body :: "'k \<Rightarrow> ('k, 'v) UnorderedMap \<Rightarrow> error + 'v" where
  "at_body key m =
     and_then (bucket_of m key) (\<lambda>bucketIndex.
     and_then (Find_Previous_In_Bucket bucketIndex key (elements_f m) (table_f m)) (\<lambda>it.
       if it = length (table_f m ! bucketIndex) then Inl Out_of_range
       else and_then (next_fl (elements_f m) (table_f m ! bucketIndex ! it)) (\<lambda>e.
            and_then (deref (elements_f m) e) (\<lambda>p. Inr (snd p)))))"

definition at_key :: "'k \<Rightarrow> ('k, 'v) UnorderedMap \<Rightarrow> error + 'v" where
  "at_key key m = Inl Ill_formed"

text \<open>\<^verbatim>\<open>void ReHash()\<close>, a public member: the body of the loop for one element, and
  the loop over the chain (which the loop does not change).\<close>

definition ReHash_step ::
  "('k \<Rightarrow> nat) \<Rightarrow> ('k, 'v) forward_list \<Rightarrow> nat \<Rightarrow> 'k \<Rightarrow> iterator list list \<Rightarrow>
   error + iterator list list" where
  "ReHash_step hf ns prevSize key tbl =
     (if prevSize = 0 \<or> tbl = [] then Inl Undefined_behaviour
      else
        let h = hf key;
            prevBucketIndex = h mod prevSize;
            newBucketIndex = h mod length tbl
        in if prevBucketIndex \<noteq> newBucketIndex then
             and_then (Find_Previous_In_Bucket prevBucketIndex key ns tbl) (\<lambda>jt.
               if jt = length (tbl ! prevBucketIndex) then Inl Undefined_behaviour
               else
                 let tbl1 = tbl[newBucketIndex := (tbl ! prevBucketIndex ! jt) # tbl ! newBucketIndex]
                 in Inr (tbl1[prevBucketIndex :=
                      take jt (tbl1 ! prevBucketIndex) @ drop (Suc jt) (tbl1 ! prevBucketIndex)]))
           else Inr tbl)"

fun ReHash_loop ::
  "('k \<Rightarrow> nat) \<Rightarrow> ('k, 'v) forward_list \<Rightarrow> nat \<Rightarrow> ('k, 'v) forward_list \<Rightarrow>
   iterator list list \<Rightarrow> error + iterator list list" where
  "ReHash_loop hf ns prevSize [] tbl = Inr tbl"
| "ReHash_loop hf ns prevSize ((a, p) # rest) tbl =
     and_then (ReHash_step hf ns prevSize (fst p) tbl) (ReHash_loop hf ns prevSize rest)"

definition ReHash :: "('k, 'v) UnorderedMap \<Rightarrow> error + ('k, 'v) UnorderedMap" where
  "ReHash m =
     (let prevSize = length (table_f m);
          tbl = table_f m @ replicate prevSize []
      in and_then (ReHash_loop (hash_f m) (elements_f m) prevSize (elements_f m) tbl)
           (\<lambda>tbl'. Inr (m\<lparr>table_f := tbl'\<rparr>)))"

text \<open>\<^verbatim>\<open>static_cast<double>(size_) / table_.size() > maxLoadFactor_\<close>, with
  \<^verbatim>\<open>maxLoadFactor_ = 1.0\<close>.\<close>

definition maxLoadFactor :: real where
  "maxLoadFactor = 1.0"

definition load_exceeded :: "nat \<Rightarrow> nat \<Rightarrow> bool" where
  "load_exceeded sz buckets = (real sz / real buckets > maxLoadFactor)"

text \<open>\<^verbatim>\<open>void insert(const Element& p)\<close>\<close>

definition insert_map ::
  "('k, 'v) Element \<Rightarrow> ('k, 'v) UnorderedMap \<Rightarrow> error + ('k, 'v) UnorderedMap" where
  "insert_map p m =
     and_then (find_map (fst p) m) (\<lambda>found.
       if found \<noteq> End then Inr m
       else
         and_then
           (if size_f m > 0 then
              and_then (deref (elements_f m) (begin_fl (elements_f m))) (\<lambda>front.
              and_then (bucket_of m (fst front)) (\<lambda>bucketIndex.
              and_then (Find_Previous_In_Bucket bucketIndex (fst front) (elements_f m) (table_f m)) (\<lambda>it.
                if it = length (table_f m ! bucketIndex) then Inl Undefined_behaviour
                else
                  let ns = push_front p (elements_f m)
                  in Inr (m\<lparr>elements_f := ns,
                            table_f := (table_f m)[bucketIndex :=
                                        (table_f m ! bucketIndex)[it := begin_fl ns]]\<rparr>))))
            else Inr (m\<lparr>elements_f := push_front p (elements_f m)\<rparr>))
         (\<lambda>m1.
            let m2 = m1\<lparr>size_f := size_f m1 + 1\<rparr>
            in and_then (bucket_of m2 (fst p)) (\<lambda>bucketIndex.
                 let m3 = m2\<lparr>table_f := (table_f m2)[bucketIndex :=
                                           Before_begin # table_f m2 ! bucketIndex]\<rparr>
                 in if load_exceeded (size_f m3) (length (table_f m3)) then ReHash m3
                    else Inr m3)))"

text \<open>\<^verbatim>\<open>void erase(const KeyType& key)\<close>\<close>

definition erase :: "'k \<Rightarrow> ('k, 'v) UnorderedMap \<Rightarrow> error + ('k, 'v) UnorderedMap" where
  "erase key m =
     and_then (bucket_of m key) (\<lambda>bucketIndex.
     and_then (Find_Previous_In_Bucket bucketIndex key (elements_f m) (table_f m)) (\<lambda>it.
       if it = length (table_f m ! bucketIndex) then Inr m
       else
         let m1 = m\<lparr>size_f := size_f m - 1\<rparr>;
             anchor = table_f m1 ! bucketIndex ! it
         in and_then (next_fl (elements_f m1) anchor) (\<lambda>jt.
            and_then (next_fl (elements_f m1) jt) (\<lambda>njt.
            and_then
              (if njt \<noteq> End then
                 and_then (deref (elements_f m1) njt) (\<lambda>succ.
                 and_then (bucket_of m1 (fst succ)) (\<lambda>tmpBucketIndex.
                 and_then (Find_Previous_In_Bucket tmpBucketIndex (fst succ)
                             (elements_f m1) (table_f m1)) (\<lambda>kt.
                   if kt = length (table_f m1 ! tmpBucketIndex) then Inl Undefined_behaviour
                   else Inr (m1\<lparr>table_f := (table_f m1)[tmpBucketIndex :=
                                   (table_f m1 ! tmpBucketIndex)[kt := anchor]]\<rparr>))))
               else Inr m1)
            (\<lambda>m2.
               and_then (erase_after (elements_f m2) anchor) (\<lambda>ns.
                 Inr (m2\<lparr>elements_f := ns,
                         table_f := (table_f m2)[bucketIndex :=
                            take it (table_f m2 ! bucketIndex) @
                            drop (Suc it) (table_f m2 ! bucketIndex)]\<rparr>)))))))"

text \<open>\<^verbatim>\<open>void clear()\<close>\<close>

fun clear_loop ::
  "('k \<Rightarrow> nat) \<Rightarrow> ('k, 'v) forward_list \<Rightarrow> iterator list list \<Rightarrow> error + iterator list list" where
  "clear_loop hf [] tbl = Inr tbl"
| "clear_loop hf ((a, p) # rest) tbl =
     (if tbl = [] then Inl Undefined_behaviour
      else clear_loop hf rest (tbl[hf (fst p) mod length tbl := []]))"

definition clear :: "('k, 'v) UnorderedMap \<Rightarrow> error + ('k, 'v) UnorderedMap" where
  "clear m =
     and_then (clear_loop (hash_f m) (elements_f m) (table_f m)) (\<lambda>tbl.
       Inr (m\<lparr>table_f := tbl, elements_f := [], size_f := 0\<rparr>))"

text \<open>\<^verbatim>\<open>ValueType& operator[](const KeyType& key)\<close>. \<^verbatim>\<open>ValueType()\<close> is the parameter
  \<open>dflt\<close>; the reference returned is the node that holds the value.\<close>

definition operator_index ::
  "'v \<Rightarrow> 'k \<Rightarrow> ('k, 'v) UnorderedMap \<Rightarrow> error + (iterator \<times> ('k, 'v) UnorderedMap)" where
  "operator_index dflt key m =
     and_then (bucket_of m key) (\<lambda>bucketIndex.
     and_then (Find_Previous_In_Bucket bucketIndex key (elements_f m) (table_f m)) (\<lambda>it.
       if it \<noteq> length (table_f m ! bucketIndex) then
         and_then (next_fl (elements_f m) (table_f m ! bucketIndex ! it)) (\<lambda>e.
         and_then (deref (elements_f m) e) (\<lambda>_. Inr (e, m)))
       else
         and_then (insert_map (key, dflt) m) (\<lambda>m'.
         and_then (deref (elements_f m') (begin_fl (elements_f m'))) (\<lambda>_.
           Inr (begin_fl (elements_f m'), m')))))"

text \<open>\<^verbatim>\<open>size()\<close>, \<^verbatim>\<open>empty()\<close>, \<^verbatim>\<open>begin()\<close>, \<^verbatim>\<open>end()\<close>, and the pairs a
  \<^verbatim>\<open>for (it = begin(); it != end(); ++it)\<close> loop visits.\<close>

definition size_map :: "('k, 'v) UnorderedMap \<Rightarrow> nat" where
  "size_map m = size_f m"

definition empty_map :: "('k, 'v) UnorderedMap \<Rightarrow> bool" where
  "empty_map m = (elements_f m = [])"

definition begin_map :: "('k, 'v) UnorderedMap \<Rightarrow> iterator" where
  "begin_map m = begin_fl (elements_f m)"

definition end_map :: "('k, 'v) UnorderedMap \<Rightarrow> iterator" where
  "end_map m = End"

definition traverse :: "('k, 'v) UnorderedMap \<Rightarrow> ('k, 'v) Element list" where
  "traverse m = map snd (elements_f m)"

text \<open>\<^verbatim>\<open>UnorderedMap& operator=(const UnorderedMap& other)\<close>. The loop
  \<^verbatim>\<open>for (auto it = other.begin(); it != other.end(); ++it) insert(*it);\<close> runs over the
  chain of another object, which the inserts into \<^verbatim>\<open>*this\<close> do not touch.
  Whether \<^verbatim>\<open>this == &other\<close> is a matter of the two objects' addresses, so the operator
  works on a store of objects.\<close>

fun insert_range ::
  "('k, 'v) Element list \<Rightarrow> ('k, 'v) UnorderedMap \<Rightarrow> error + ('k, 'v) UnorderedMap" where
  "insert_range [] m = Inr m"
| "insert_range (p # ps) m = and_then (insert_map p m) (insert_range ps)"

type_synonym ('k, 'v) store = "nat \<Rightarrow> ('k, 'v) UnorderedMap option"

definition operator_assign ::
  "nat \<Rightarrow> nat \<Rightarrow> ('k, 'v) store \<Rightarrow> error + ('k, 'v) store" where
  "operator_assign this other s =
     (case (s this, s other) of
        (Some m, Some b) \<Rightarrow>
          if this = other then Inr s
          else and_then (clear m) (\<lambda>m1.
               and_then (insert_range (traverse b) m1) (\<lambda>m2. Inr (s(this \<mapsto> m2))))
      | _ \<Rightarrow> Inl Undefined_behaviour)"

text \<open>Writing through the \<^verbatim>\<open>ValueType&\<close> that \<^verbatim>\<open>operator[]\<close> returned
  (\<^verbatim>\<open>m[k] = v\<close>), or through an iterator (\<^verbatim>\<open>it->second = v\<close>): the key of an
  \<^verbatim>\<open>Element\<close> is \<^verbatim>\<open>const\<close>, only the value of the node changes.\<close>

fun store_value :: "nat \<Rightarrow> 'v \<Rightarrow> ('k, 'v) forward_list \<Rightarrow> error + ('k, 'v) forward_list" where
  "store_value a v [] = Inl Undefined_behaviour"
| "store_value a v ((a', e) # ns) =
     (if a = a' then Inr ((a', (fst e, v)) # ns)
      else and_then (store_value a v ns) (\<lambda>r. Inr ((a', e) # r)))"

definition assign_through ::
  "iterator \<Rightarrow> 'v \<Rightarrow> ('k, 'v) UnorderedMap \<Rightarrow> error + ('k, 'v) UnorderedMap" where
  "assign_through r v m =
     (case r of
        Node a \<Rightarrow> and_then (store_value a v (elements_f m)) (\<lambda>ns. Inr (m\<lparr>elements_f := ns\<rparr>))
      | _ \<Rightarrow> Inl Undefined_behaviour)"

subsection \<open>The states a program can reach\<close>

text \<open>A program constructs objects and calls \<^verbatim>\<open>insert\<close>, \<^verbatim>\<open>erase\<close>,
  \<^verbatim>\<open>operator[]\<close> (and writes through the reference it returns), \<^verbatim>\<open>clear\<close>, the
  copy assignment and the public \<^verbatim>\<open>ReHash\<close> on them. A call whose behaviour is
  undefined ends the program, so it leads to no state.\<close>

inductive reachable :: "('k, 'v) store \<Rightarrow> bool" where
  construct_none: "reachable (\<lambda>_. None)"
| construct: "reachable s \<Longrightarrow> s this = None \<Longrightarrow> reachable (s(this \<mapsto> UnorderedMap_init h))"
| call_insert:
    "reachable s \<Longrightarrow> s this = Some m \<Longrightarrow> insert_map p m = Inr m' \<Longrightarrow> reachable (s(this \<mapsto> m'))"
| call_erase:
    "reachable s \<Longrightarrow> s this = Some m \<Longrightarrow> erase key m = Inr m' \<Longrightarrow> reachable (s(this \<mapsto> m'))"
| call_index:
    "reachable s \<Longrightarrow> s this = Some m \<Longrightarrow> operator_index dflt key m = Inr (r, m') \<Longrightarrow>
     reachable (s(this \<mapsto> m'))"
| write_value:
    "reachable s \<Longrightarrow> s this = Some m \<Longrightarrow> assign_through r v m = Inr m' \<Longrightarrow>
     reachable (s(this \<mapsto> m'))"
| call_clear:
    "reachable s \<Longrightarrow> s this = Some m \<Longrightarrow> clear m = Inr m' \<Longrightarrow> reachable (s(this \<mapsto> m'))"
| call_assign:
    "reachable s \<Longrightarrow> operator_assign this other s = Inr s' \<Longrightarrow> reachable s'"
| call_ReHash:
    "reachable s \<Longrightarrow> s this = Some m \<Longrightarrow> ReHash m = Inr m' \<Longrightarrow> reachable (s(this \<mapsto> m'))"

section \<open>The invariant of the class\<close>

text \<open>The entry that indexes an element is the chain position in front of it: \<open>anchored q ns\<close>
  pairs every element of the chain segment \<open>ns\<close>, whose first node follows position \<open>q\<close>,
  with that position and its key. \<open>pos_before q xs\<close> is the position in front of whatever
  follows the segment \<open>xs\<close>, and \<open>key_after ns p\<close> is \<^verbatim>\<open>next(p)->first\<close>.\<close>

fun anchored :: "iterator \<Rightarrow> ('k, 'v) forward_list \<Rightarrow> (iterator \<times> 'k) list" where
  "anchored q [] = []"
| "anchored q ((a, e) # ns) = (q, fst e) # anchored (Node a) ns"

definition pos_before :: "iterator \<Rightarrow> ('k, 'v) forward_list \<Rightarrow> iterator" where
  "pos_before q xs = (if xs = [] then q else Node (fst (last xs)))"

definition key_after :: "('k, 'v) forward_list \<Rightarrow> iterator \<Rightarrow> error + 'k" where
  "key_after ns p = and_then (next_fl ns p) (\<lambda>e. and_then (deref ns e) (\<lambda>x. Inr (fst x)))"

text \<open>A table is right for a chain and a bucket function \<open>f\<close> when every key has a bucket
  and bucket \<open>b\<close> holds, each once and in any order, the positions in front of the elements
  whose key \<open>f\<close> sends to \<open>b\<close>. The bucket function of the class is
  \<^verbatim>\<open>hash_(key) % table_.size()\<close>; \<^verbatim>\<open>ReHash\<close> passes through tables that mix two of
  them.\<close>

definition bucket_anchors :: "('k \<Rightarrow> nat) \<Rightarrow> nat \<Rightarrow> ('k, 'v) forward_list \<Rightarrow> iterator list" where
  "bucket_anchors f b ns = map fst (filter (\<lambda>pk. f (snd pk) = b) (anchored Before_begin ns))"

definition table_ok :: "('k \<Rightarrow> nat) \<Rightarrow> ('k, 'v) forward_list \<Rightarrow> iterator list list \<Rightarrow> bool" where
  "table_ok f ns tbl \<longleftrightarrow>
     list_all (\<lambda>n. f (fst (snd n)) < length tbl) ns \<and>
     list_all (\<lambda>b. mset (tbl ! b) = mset (bucket_anchors f b ns)) [0..<length tbl]"

text \<open>The nodes of a chain have different addresses and different keys.\<close>

definition chain_ok :: "('k, 'v) forward_list \<Rightarrow> bool" where
  "chain_ok ns \<longleftrightarrow> distinct (map fst ns) \<and> distinct (map (fst \<circ> snd) ns)"

definition valid :: "('k, 'v) UnorderedMap \<Rightarrow> bool" where
  "valid m \<longleftrightarrow>
     size_f m = length (elements_f m) \<and> table_f m \<noteq> [] \<and> chain_ok (elements_f m) \<and>
     table_ok (\<lambda>k. hash_f m k mod length (table_f m)) (elements_f m) (table_f m)"

text \<open>The load factor is at most \<^verbatim>\<open>maxLoadFactor_\<close>.\<close>

definition load_ok :: "('k, 'v) UnorderedMap \<Rightarrow> bool" where
  "load_ok m \<longleftrightarrow> size_f m \<le> length (table_f m)"

text \<open>Auxiliary notions of the proofs: the entries of one bucket as a multiset, and the
  bucket function in force while \<^verbatim>\<open>ReHash\<close> has moved the entries of the elements
  \<open>done\<close> and not yet the others.\<close>

definition bucket_ms :: "('k \<Rightarrow> nat) \<Rightarrow> nat \<Rightarrow> (iterator \<times> 'k) multiset \<Rightarrow> iterator multiset" where
  "bucket_ms f b A = image_mset fst (filter_mset (\<lambda>pk. f (snd pk) = b) A)"

definition rehash_fn :: "('k \<Rightarrow> nat) \<Rightarrow> nat \<Rightarrow> ('k, 'v) forward_list \<Rightarrow> 'k \<Rightarrow> nat" where
  "rehash_fn hf B done k =
     (if k \<in> set (map (fst \<circ> snd) done) then hf k mod (2 * B) else hf k mod B)"

text \<open>The entries that \<^verbatim>\<open>ReHash\<close> still has to move when the elements \<open>rest\<close> are
  ahead of its loop: those of the elements whose bucket index changes. And the bucket, among
  \<open>n\<close>, of the element that a table entry \<open>q\<close> indexes.\<close>

definition moving ::
  "('k \<Rightarrow> nat) \<Rightarrow> nat \<Rightarrow> ('k, 'v) forward_list \<Rightarrow> ('k, 'v) forward_list \<Rightarrow> iterator list" where
  "moving hf B ns rest =
     map fst (filter (\<lambda>pk. snd pk \<in> set (map (fst \<circ> snd) rest) \<and>
                           hf (snd pk) mod B \<noteq> hf (snd pk) mod (2 * B))
                (anchored Before_begin ns))"

definition anchor_bucket ::
  "('k \<Rightarrow> nat) \<Rightarrow> nat \<Rightarrow> ('k, 'v) forward_list \<Rightarrow> iterator \<Rightarrow> nat option" where
  "anchor_bucket hf n ns q = (case key_after ns q of Inl _ \<Rightarrow> None | Inr k \<Rightarrow> Some (hf k mod n))"

text \<open>A map to run the operations on: the state after \<^verbatim>\<open>insert({1, 10})\<close> and
  \<^verbatim>\<open>insert({2, 20})\<close> on a new map with the identity as hash function (the second insert
  has grown the table from one bucket to two).\<close>

definition example_map :: "(nat, nat) UnorderedMap" where
  "example_map =
     \<lparr>hash_f = (\<lambda>k. k), elements_f = [(1, (2, 20)), (0, (1, 10))],
      table_f = [[Before_begin], [Node 1]], size_f = 2\<rparr>"

section \<open>Lemmas\<close>

lemma and_then_Inr [simp]: "and_then (Inr x) f = f x"
  by (simp add: and_then_def)

lemma and_then_Inl [simp]: "and_then (Inl e) f = Inl e"
  by (simp add: and_then_def)

lemma and_then_eq_Inr: "and_then r f = Inr y \<longleftrightarrow> (\<exists>x. r = Inr x \<and> f x = Inr y)"
  by (cases r) auto

lemma fresh_addr_gt: "(a, e) \<in> set ns \<Longrightarrow> a < fresh_addr ns"
  by (induction ns) auto

lemma fresh_addr_notin: "fresh_addr ns \<notin> fst ` set ns"
  using fresh_addr_gt by fastforce

lemma next_node_append:
  "a \<notin> fst ` set xs \<Longrightarrow> next_node a (xs @ (a, e) # ys) = Inr (begin_fl ys)"
  by (induction xs) auto

lemma next_node_notin: "a \<notin> fst ` set ns \<Longrightarrow> next_node a ns = Inl Undefined_behaviour"
  by (induction ns) auto

lemma map_of_mid:
  "a \<notin> fst ` set xs \<Longrightarrow> map_of (xs @ (a, e) # ys) a = Some e"
  by (induction xs) auto

lemma anchored_append:
  "anchored q (xs @ ys) = anchored q xs @ anchored (pos_before q xs) ys"
  by (induction xs arbitrary: q) (auto simp: pos_before_def)

lemma map_snd_anchored [simp]: "map snd (anchored q ns) = map (fst \<circ> snd) ns"
  by (induction ns arbitrary: q) auto

lemma length_anchored [simp]: "length (anchored q ns) = length ns"
  by (induction ns arbitrary: q) auto

lemma anchored_split:
  "(p, k) \<in> set (anchored q ns) \<Longrightarrow>
   \<exists>xs a v ys. ns = xs @ (a, (k, v)) # ys \<and> p = pos_before q xs"
proof (induction ns arbitrary: q)
  case Nil
  then show ?case by simp
next
  case (Cons n ns)
  obtain a k0 v0 where n: "n = (a, (k0, v0))" by (cases n) auto
  show ?case
  proof (cases "(p, k) = (q, k0)")
    case True
    then have "n # ns = [] @ (a, (k, v0)) # ns \<and> p = pos_before q []"
      by (simp add: n pos_before_def)
    then show ?thesis by blast
  next
    case False
    with Cons.prems n have "(p, k) \<in> set (anchored (Node a) ns)" by auto
    from Cons.IH[OF this] obtain xs a' v ys where
      s: "ns = xs @ (a', (k, v)) # ys" "p = pos_before (Node a) xs" by blast
    have "n # ns = (n # xs) @ (a', (k, v)) # ys \<and> p = pos_before q (n # xs)"
      using s n by (auto simp: pos_before_def)
    then show ?thesis by blast
  qed
qed

lemma anchored_mid:
  "(pos_before q xs, k) \<in> set (anchored q (xs @ (a, (k, v)) # ys))"
  by (simp add: anchored_append)

lemma next_fl_pos_before:
  assumes "distinct (map fst (xs @ (a, e) # ys))"
  shows "next_fl (xs @ (a, e) # ys) (pos_before Before_begin xs) = Inr (Node a)"
proof (cases xs rule: rev_cases)
  case Nil
  then show ?thesis by (simp add: pos_before_def begin_fl_def)
next
  case (snoc xs' x)
  obtain a' e' where x: "x = (a', e')" by (cases x) auto
  from assms snoc x have "a' \<notin> fst ` set xs'" by auto
  from next_node_append[OF this, of e' "(a, e) # ys"] show ?thesis
    using snoc x by (simp add: pos_before_def begin_fl_def)
qed

lemma deref_mid:
  assumes "distinct (map fst (xs @ (a, e) # ys))"
  shows "deref (xs @ (a, e) # ys) (Node a) = Inr e"
proof -
  from assms have "a \<notin> fst ` set xs" by auto
  from map_of_mid[OF this] show ?thesis by simp
qed

lemma key_after_anchored:
  assumes "distinct (map fst ns)" and "(p, k) \<in> set (anchored Before_begin ns)"
  shows "key_after ns p = Inr k"
proof -
  from anchored_split[OF assms(2)] obtain xs a v ys where
    s: "ns = xs @ (a, (k, v)) # ys" "p = pos_before Before_begin xs" by blast
  show ?thesis
    using next_fl_pos_before[of xs a "(k, v)" ys] deref_mid[of xs a "(k, v)" ys] assms(1) s
    by (simp add: key_after_def)
qed

lemma anchors_subset:
  "fst ` set (anchored r ns) \<subseteq> insert r (Node ` fst ` set ns)"
proof (induction ns arbitrary: r)
  case Nil
  then show ?case by simp
next
  case (Cons x xs)
  obtain a e where x: "x = (a, e)" by (cases x) auto
  have "fst ` set (anchored (Node a) xs) \<subseteq> insert (Node a) (Node ` fst ` set xs)"
    by (rule Cons.IH)
  then show ?case unfolding x by auto
qed

lemma distinct_anchors:
  "distinct (map fst ns) \<Longrightarrow> q \<notin> Node ` fst ` set ns \<Longrightarrow> distinct (map fst (anchored q ns))"
proof (induction ns arbitrary: q)
  case Nil
  then show ?case by simp
next
  case (Cons n ns)
  obtain a e where n: "n = (a, e)" by (cases n) auto
  note sub = anchors_subset
  have "q \<notin> fst ` set (anchored (Node a) ns)"
    using sub[of "Node a"] Cons.prems n by auto
  moreover have "distinct (map fst (anchored (Node a) ns))"
    using Cons.IH[of "Node a"] Cons.prems n by auto
  ultimately show ?case using n by simp
qed

lemma anchored_key_unique:
  assumes "distinct (map fst ns)"
    and "(p, k) \<in> set (anchored Before_begin ns)" and "(p, k') \<in> set (anchored Before_begin ns)"
  shows "k = k'"
  using key_after_anchored[OF assms(1,2)] key_after_anchored[OF assms(1,3)] by simp

lemma anchored_anchor_unique:
  assumes "distinct (map (fst \<circ> snd) ns)"
    and "(p, k) \<in> set (anchored q ns)" and "(p', k) \<in> set (anchored q ns)"
  shows "p = p'"
proof -
  have "distinct (map snd (anchored q ns))" unfolding map_snd_anchored by (rule assms(1))
  then have "inj_on snd (set (anchored q ns))" using distinct_map by blast
  from inj_onD[OF this _ assms(2,3)] show ?thesis by simp
qed

lemma key_in_anchored:
  "k \<in> set (map (fst \<circ> snd) ns) \<longleftrightarrow> (\<exists>p. (p, k) \<in> set (anchored q ns))"
proof -
  have "set (map (fst \<circ> snd) ns) = snd ` set (anchored q ns)"
    by (metis map_snd_anchored set_map)
  then show ?thesis by force
qed

lemma table_okD:
  "table_ok f ns tbl \<Longrightarrow> b < length tbl \<Longrightarrow> mset (tbl ! b) = mset (bucket_anchors f b ns)"
  by (simp add: table_ok_def list_all_iff)

lemma table_ok_range:
  "table_ok f ns tbl \<Longrightarrow> (a, (k, v)) \<in> set ns \<Longrightarrow> f k < length tbl"
  by (fastforce simp: table_ok_def list_all_iff)

lemma table_okI:
  assumes "\<And>a k v. (a, (k, v)) \<in> set ns \<Longrightarrow> f k < length tbl"
    and "\<And>b. b < length tbl \<Longrightarrow> mset (tbl ! b) = mset (bucket_anchors f b ns)"
  shows "table_ok f ns tbl"
  using assms by (auto simp: table_ok_def list_all_iff)

lemma in_bucket_anchors:
  "p \<in> set (bucket_anchors f b ns) \<longleftrightarrow> (\<exists>k. (p, k) \<in> set (anchored Before_begin ns) \<and> f k = b)"
  by (force simp: bucket_anchors_def)

lemma in_bucket:
  assumes "table_ok f ns tbl" "b < length tbl"
  shows "p \<in> set (tbl ! b) \<longleftrightarrow> (\<exists>k. (p, k) \<in> set (anchored Before_begin ns) \<and> f k = b)"
proof -
  have "set (tbl ! b) = set (bucket_anchors f b ns)"
    using table_okD[OF assms] by (rule mset_eq_setD)
  then show ?thesis by (simp add: in_bucket_anchors)
qed

lemma Find_Previous_loop_takeWhile:
  assumes "\<forall>p \<in> set as. \<exists>k. key_after ns p = Inr k"
  shows "Find_Previous_loop ns key as =
         Inr (length (takeWhile (\<lambda>p. key_after ns p \<noteq> Inr key) as))"
  using assms
proof (induction as)
  case Nil
  then show ?case by simp
next
  case (Cons a as)
  from Cons.prems obtain k where k: "key_after ns a = Inr k" by auto
  then obtain e x where ex: "next_fl ns a = Inr e" "deref ns e = Inr x" "fst x = k"
    by (auto simp: key_after_def and_then_eq_Inr)
  have IH: "Find_Previous_loop ns key as =
            Inr (length (takeWhile (\<lambda>p. key_after ns p \<noteq> Inr key) as))"
    using Cons by simp
  show ?case using k ex IH by simp
qed

lemma length_takeWhile_eq:
  "length (takeWhile P xs) = length xs \<longleftrightarrow> (\<forall>x \<in> set xs. P x)"
  by (induction xs) auto

lemma anchored_key_in_chain:
  "(p, k) \<in> set (anchored q ns) \<Longrightarrow> k \<in> set (map (fst \<circ> snd) ns)"
  using key_in_anchored by fast

lemma Find_Previous_present:
  assumes c: "chain_ok ns" and t: "table_ok f ns tbl"
    and pk: "(p, k) \<in> set (anchored Before_begin ns)"
  shows "\<exists>i. Find_Previous_In_Bucket (f k) k ns tbl = Inr i \<and> i < length (tbl ! f k) \<and>
             tbl ! f k ! i = p"
proof -
  from anchored_split[OF pk] obtain xs a v ys where "ns = xs @ (a, (k, v)) # ys" by blast
  then have "(a, (k, v)) \<in> set ns" by simp
  from table_ok_range[OF t this] have b: "f k < length tbl" .
  let ?as = "tbl ! f k"
  let ?P = "\<lambda>p. key_after ns p \<noteq> Inr k"
  have d: "distinct (map fst ns)" using c by (simp add: chain_ok_def)
  have all: "\<forall>q \<in> set ?as. \<exists>k'. key_after ns q = Inr k'"
    using in_bucket[OF t b] key_after_anchored[OF d] by blast
  have loop: "Find_Previous_loop ns k ?as = Inr (length (takeWhile ?P ?as))"
    by (rule Find_Previous_loop_takeWhile[OF all])
  have pin: "p \<in> set ?as" using in_bucket[OF t b] pk by blast
  have "\<not> ?P p" using key_after_anchored[OF d pk] by simp
  with pin have "length (takeWhile ?P ?as) \<noteq> length ?as"
    by (auto simp: length_takeWhile_eq)
  then have lt: "length (takeWhile ?P ?as) < length ?as"
    using length_takeWhile_le[of ?P ?as] by linarith
  let ?i = "length (takeWhile ?P ?as)"
  have hit: "key_after ns (?as ! ?i) = Inr k"
    using nth_length_takeWhile[OF lt] by simp
  have "?as ! ?i \<in> set ?as" using lt by simp
  then obtain k' where k': "(?as ! ?i, k') \<in> set (anchored Before_begin ns)"
    using in_bucket[OF t b] by blast
  from key_after_anchored[OF d k'] hit have "k' = k" by simp
  with k' have "(?as ! ?i, k) \<in> set (anchored Before_begin ns)" by simp
  then have "?as ! ?i = p"
    using anchored_anchor_unique[of ns _ k Before_begin p] c pk by (simp add: chain_ok_def)
  then show ?thesis using loop lt b by (simp add: Find_Previous_In_Bucket_def)
qed

lemma Find_Previous_absent:
  assumes c: "chain_ok ns" and t: "table_ok f ns tbl" and b: "b < length tbl"
    and no: "k \<notin> set (map (fst \<circ> snd) ns) \<or> f k \<noteq> b"
  shows "Find_Previous_In_Bucket b k ns tbl = Inr (length (tbl ! b))"
proof -
  let ?as = "tbl ! b"
  let ?P = "\<lambda>p. key_after ns p \<noteq> Inr k"
  have d: "distinct (map fst ns)" using c by (simp add: chain_ok_def)
  have all: "\<forall>q \<in> set ?as. \<exists>k'. key_after ns q = Inr k'"
    using in_bucket[OF t b] key_after_anchored[OF d] by blast
  have loop: "Find_Previous_loop ns k ?as = Inr (length (takeWhile ?P ?as))"
    by (rule Find_Previous_loop_takeWhile[OF all])
  have "\<forall>q \<in> set ?as. ?P q"
  proof
    fix q assume "q \<in> set ?as"
    then obtain k' where k': "(q, k') \<in> set (anchored Before_begin ns)" "f k' = b"
      using in_bucket[OF t b] by blast
    with no anchored_key_in_chain[OF k'(1)] have "k' \<noteq> k" by blast
    with key_after_anchored[OF d k'(1)] show "?P q" by simp
  qed
  then have tw: "takeWhile ?P ?as = ?as" by (simp add: takeWhile_eq_all_conv)
  show ?thesis by (simp add: Find_Previous_In_Bucket_def loop b tw)
qed

lemma mset_bucket_anchors:
  "mset (bucket_anchors f b ns) = bucket_ms f b (mset (anchored Before_begin ns))"
  by (simp add: bucket_anchors_def bucket_ms_def)

lemma bucket_ms_add [simp]: "bucket_ms f b (A + B) = bucket_ms f b A + bucket_ms f b B"
  by (simp add: bucket_ms_def)

lemma bucket_ms_empty [simp]: "bucket_ms f b {#} = {#}"
  by (simp add: bucket_ms_def)

lemma bucket_ms_add_mset [simp]:
  "bucket_ms f b (add_mset (p, k) A) = (if f k = b then add_mset p (bucket_ms f b A) else bucket_ms f b A)"
  by (simp add: bucket_ms_def)

lemma bucket_ms_cong:
  "(\<And>p k. (p, k) \<in># A \<Longrightarrow> f k = g k) \<Longrightarrow> bucket_ms f b A = bucket_ms g b A"
  unfolding bucket_ms_def
  by (rule arg_cong[where f = "image_mset fst"], rule filter_mset_cong) auto

lemma table_ok_cong:
  assumes "\<And>k. k \<in> set (map (fst \<circ> snd) ns) \<Longrightarrow> f k = g k"
  shows "table_ok f ns tbl = table_ok g ns tbl"
proof -
  have "bucket_ms f b (mset (anchored Before_begin ns)) = bucket_ms g b (mset (anchored Before_begin ns))" for b
    by (rule bucket_ms_cong) (use assms anchored_key_in_chain in fastforce)
  moreover have "list_all (\<lambda>n. f (fst (snd n)) < length tbl) ns = list_all (\<lambda>n. g (fst (snd n)) < length tbl) ns"
    using assms by (auto simp: list_all_iff)
  ultimately show ?thesis by (simp add: table_ok_def mset_bucket_anchors)
qed

lemma mset_erase_nth:
  assumes "i < length xs"
  shows "mset (take i xs) + mset (drop (Suc i) xs) = mset xs - {#xs ! i#}"
proof -
  from assms have "xs = take i xs @ xs ! i # drop (Suc i) xs" by (rule id_take_nth_drop)
  then have "mset xs = mset (take i xs @ xs ! i # drop (Suc i) xs)" by simp
  then have "mset xs = add_mset (xs ! i) (mset (take i xs) + mset (drop (Suc i) xs))"
    by (simp only: mset_append mset.simps union_mset_add_mset_right)
  then show ?thesis by simp
qed

lemma find_map_present:
  assumes v: "valid m" and el: "(a, (k, x)) \<in> set (elements_f m)"
  shows "find_map k m = Inr (Node a)" and "at_body k m = Inr x"
    and "deref (elements_f m) (Node a) = Inr (k, x)"
proof -
  let ?ns = "elements_f m" and ?tbl = "table_f m"
  let ?f = "\<lambda>k. hash_f m k mod length (table_f m)"
  from v have c: "chain_ok ?ns" and t: "table_ok ?f ?ns ?tbl" and ne: "?tbl \<noteq> []"
    by (simp_all add: valid_def)
  from split_list[OF el] obtain xs ys where s: "?ns = xs @ (a, (k, x)) # ys" by blast
  let ?p = "pos_before Before_begin xs"
  have pk: "(?p, k) \<in> set (anchored Before_begin ?ns)"
    unfolding s by (rule anchored_mid)
  from Find_Previous_present[OF c t pk] obtain i where
    i: "Find_Previous_In_Bucket (?f k) k ?ns ?tbl = Inr i" "i < length (?tbl ! ?f k)"
       "?tbl ! ?f k ! i = ?p" by blast
  have d: "distinct (map fst (xs @ (a, (k, x)) # ys))" using c s by (simp add: chain_ok_def)
  have nx: "next_fl ?ns ?p = Inr (Node a)"
    unfolding s by (rule next_fl_pos_before[OF d])
  show dr: "deref ?ns (Node a) = Inr (k, x)"
    unfolding s by (rule deref_mid[OF d])
  show "find_map k m = Inr (Node a)"
    using i nx ne by (simp add: find_map_def bucket_of_def)
  show "at_body k m = Inr x"
    using i nx ne dr by (simp add: at_body_def bucket_of_def)
qed

lemma find_map_absent:
  assumes v: "valid m" and no: "k \<notin> fst ` set (traverse m)"
  shows "find_map k m = Inr End" and "at_body k m = Inl Out_of_range"
proof -
  let ?ns = "elements_f m" and ?tbl = "table_f m"
  let ?f = "\<lambda>k. hash_f m k mod length (table_f m)"
  from v have c: "chain_ok ?ns" and t: "table_ok ?f ?ns ?tbl" and ne: "?tbl \<noteq> []"
    by (simp_all add: valid_def)
  have b: "?f k < length ?tbl" using ne by simp
  have "k \<notin> set (map (fst \<circ> snd) ?ns)" using no by (simp add: traverse_def image_image)
  then have "k \<notin> set (map (fst \<circ> snd) ?ns) \<or> ?f k \<noteq> ?f k" by blast
  from Find_Previous_absent[OF c t b this]
  have fp: "Find_Previous_In_Bucket (?f k) k ?ns ?tbl = Inr (length (?tbl ! ?f k))" .
  show "find_map k m = Inr End" using fp ne by (simp add: find_map_def bucket_of_def)
  show "at_body k m = Inl Out_of_range" using fp ne by (simp add: at_body_def bucket_of_def)
qed

lemma bucket_ms_none:
  "(\<And>p k. (p, k) \<in># A \<Longrightarrow> f k \<noteq> b) \<Longrightarrow> bucket_ms f b A = {#}"
  unfolding bucket_ms_def by auto

lemma anchored_rest:
  assumes c: "chain_ok ns" and pk: "(p, k) \<in> set (anchored q ns)"
  obtains R where "mset (anchored q ns) = add_mset (p, k) R"
    and "\<And>p' k'. (p', k') \<in># R \<Longrightarrow> k' \<noteq> k"
proof -
  let ?L = "anchored q ns"
  let ?R = "mset (remove1 (p, k) ?L)"
  have dk: "distinct (map snd ?L)" using c by (simp add: chain_ok_def)
  then have dL: "distinct ?L" using distinct_map by blast
  have 1: "mset ?L = add_mset (p, k) ?R" using pk by simp
  have 2: "k' \<noteq> k" if "(p', k') \<in># ?R" for p' k'
  proof
    assume "k' = k"
    from that have "(p', k') \<in> set (remove1 (p, k) ?L)" by (simp only: set_mset_mset)
    with \<open>k' = k\<close> have in1: "(p', k) \<in> set (remove1 (p, k) ?L)" by blast
    then have "(p', k) \<in> set ?L" using dL by simp
    then have "p' = p" using anchored_anchor_unique[of ns p' k q p] c pk by (simp add: chain_ok_def)
    with in1 show False using dL by simp
  qed
  from 1 2 show thesis by (rule that)
qed

lemma bucket_ms_move:
  assumes c: "chain_ok ns" and pk: "(p, k) \<in> set (anchored q ns)"
  obtains R where "bucket_ms f b (mset (anchored q ns)) = (if f k = b then add_mset p R else R)"
    and "bucket_ms (f(k := n)) b (mset (anchored q ns)) = (if n = b then add_mset p R else R)"
proof -
  from anchored_rest[OF c pk] obtain A where
    A: "mset (anchored q ns) = add_mset (p, k) A" "\<And>p' k'. (p', k') \<in># A \<Longrightarrow> k' \<noteq> k"
    by blast
  have eq: "bucket_ms (f(k := n')) b A = bucket_ms f b A" for n'
    by (rule bucket_ms_cong) (use A(2) in auto)
  have "bucket_ms f b (mset (anchored q ns)) = (if f k = b then add_mset p (bucket_ms f b A) else bucket_ms f b A)"
    and "bucket_ms (f(k := n)) b (mset (anchored q ns)) = (if n = b then add_mset p (bucket_ms f b A) else bucket_ms f b A)"
    by (simp_all add: A(1) eq)
  then show thesis by (rule that)
qed

lemma ReHash_step_ok:
  assumes c: "chain_ok ns" and t: "table_ok g ns tbl" and el: "(a, (k, v)) \<in> set ns"
    and g: "g k = hf k mod B" and B: "0 < B" and len: "length tbl = 2 * B"
  shows "\<exists>tbl'. ReHash_step hf ns B k tbl = Inr tbl' \<and> length tbl' = length tbl \<and>
           table_ok (g(k := hf k mod length tbl)) ns tbl'"
proof (cases "hf k mod B = hf k mod length tbl")
  case True
  then have "g(k := hf k mod length tbl) = g" using g by auto
  then show ?thesis using True t B len by (auto simp: ReHash_step_def)
next
  case False
  let ?prev = "hf k mod B" and ?new = "hf k mod length tbl"
  let ?A = "mset (anchored Before_begin ns)"
  from split_list[OF el] obtain xs ys where s: "ns = xs @ (a, (k, v)) # ys" by blast
  let ?p = "pos_before Before_begin xs"
  have pk: "(?p, k) \<in> set (anchored Before_begin ns)" unfolding s by (rule anchored_mid)
  from Find_Previous_present[OF c t pk] g obtain j where
    j: "Find_Previous_In_Bucket ?prev k ns tbl = Inr j" "j < length (tbl ! ?prev)"
       "tbl ! ?prev ! j = ?p" by auto
  have "?prev < B" using B by simp
  then have pl: "?prev < length tbl" using len by linarith
  have nl: "?new < length tbl" using B len by simp
  let ?tbl1 = "tbl[?new := ?p # tbl ! ?new]"
  let ?tbl' = "?tbl1[?prev := take j (tbl ! ?prev) @ drop (Suc j) (tbl ! ?prev)]"
  have t1p: "?tbl1 ! ?prev = tbl ! ?prev" using False by simp
  have step: "ReHash_step hf ns B k tbl = Inr ?tbl'"
    using False j B len t1p by (auto simp: ReHash_step_def Let_def)
  have "table_ok (g(k := ?new)) ns ?tbl'"
  proof (rule table_okI)
    fix a' k' v' assume "(a', (k', v')) \<in> set ns"
    from table_ok_range[OF t this] nl show "(g(k := ?new)) k' < length ?tbl'" by simp
  next
    fix b assume "b < length ?tbl'"
    then have b: "b < length tbl" by simp
    from bucket_ms_move[OF c pk, of g b ?new] obtain R where
      R: "bucket_ms g b ?A = (if g k = b then add_mset ?p R else R)"
         "bucket_ms (g(k := ?new)) b ?A = (if ?new = b then add_mset ?p R else R)" by blast
    have old: "mset (tbl ! b) = bucket_ms g b ?A"
      using table_okD[OF t b] by (simp add: mset_bucket_anchors)
    have "mset (?tbl' ! b) = bucket_ms (g(k := ?new)) b ?A"
    proof (cases "b = ?prev")
      case True
      then have "mset (?tbl' ! b) = mset (tbl ! ?prev) - {#?p#}"
        using pl j by (simp add: mset_erase_nth)
      then show ?thesis using old R True g False by simp
    next
      case nprev: False
      show ?thesis
      proof (cases "b = ?new")
        case True
        then have "mset (?tbl' ! b) = add_mset ?p (mset (tbl ! ?new))"
          using nl False by simp
        then show ?thesis using old R True g False by simp
      next
        case False
        then have "mset (?tbl' ! b) = mset (tbl ! b)" using nprev by simp
        then show ?thesis using old R False nprev g by simp
      qed
    qed
    then show "mset (?tbl' ! b) = mset (bucket_anchors (g(k := ?new)) b ns)"
      by (simp add: mset_bucket_anchors)
  qed
  then show ?thesis using step by simp
qed

lemma ReHash_loop_ok:
  assumes c: "chain_ok ns" and B: "0 < B"
  shows "ns = done @ rest \<Longrightarrow> length tbl = 2 * B \<Longrightarrow> table_ok (rehash_fn hf B done) ns tbl \<Longrightarrow>
         \<exists>tbl'. ReHash_loop hf ns B rest tbl = Inr tbl' \<and> length tbl' = 2 * B \<and>
           table_ok (\<lambda>k. hf k mod (2 * B)) ns tbl'"
proof (induction rest arbitrary: "done" tbl)
  case Nil
  have "table_ok (rehash_fn hf B done) ns tbl = table_ok (\<lambda>k. hf k mod (2 * B)) ns tbl"
    by (rule table_ok_cong) (use Nil in \<open>simp add: rehash_fn_def\<close>)
  with Nil show ?case by simp
next
  case (Cons x rest)
  obtain a k v where x: "x = (a, (k, v))" by (cases x) auto
  have el: "(a, (k, v)) \<in> set ns" using Cons.prems(1) x by simp
  have "distinct (map (fst \<circ> snd) (done @ x # rest))" using c Cons.prems(1) by (simp add: chain_ok_def)
  then have kd: "k \<notin> set (map (fst \<circ> snd) done)" using x by auto
  then have g: "rehash_fn hf B done k = hf k mod B" by (simp add: rehash_fn_def)
  from ReHash_step_ok[where g = "rehash_fn hf B done" and hf = hf, OF c Cons.prems(3) el g B Cons.prems(2)]
  obtain tbl1 where
    t1: "ReHash_step hf ns B k tbl = Inr tbl1" "length tbl1 = length tbl"
        "table_ok ((rehash_fn hf B done)(k := hf k mod length tbl)) ns tbl1" by blast
  have "(rehash_fn hf B done)(k := hf k mod length tbl) = rehash_fn hf B (done @ [x])"
    using Cons.prems(2) x by (auto simp: rehash_fn_def fun_eq_iff)
  with t1 have t1': "table_ok (rehash_fn hf B (done @ [x])) ns tbl1" by simp
  have "ns = (done @ [x]) @ rest" using Cons.prems(1) by simp
  from Cons.IH[OF this _ t1'] t1(2) Cons.prems(2) obtain tbl' where
    "ReHash_loop hf ns B rest tbl1 = Inr tbl'" "length tbl' = 2 * B"
    "table_ok (\<lambda>k. hf k mod (2 * B)) ns tbl'" by auto
  then show ?case using t1(1) x by simp
qed

lemma table_ok_resize:
  assumes t: "table_ok (\<lambda>k. hf k mod length tbl) ns tbl" and ne: "tbl \<noteq> []"
  shows "table_ok (rehash_fn hf (length tbl) []) ns (tbl @ replicate (length tbl) [])"
proof (rule table_okI)
  fix a k v assume "(a, (k, v)) \<in> set ns"
  show "rehash_fn hf (length tbl) [] k < length (tbl @ replicate (length tbl) [])"
    using ne by (simp add: rehash_fn_def trans_less_add1)
next
  let ?t2 = "tbl @ replicate (length tbl) []"
  let ?A = "mset (anchored Before_begin ns)"
  fix b assume b: "b < length ?t2"
  have f: "rehash_fn hf (length tbl) [] = (\<lambda>k. hf k mod length tbl)"
    by (simp add: rehash_fn_def fun_eq_iff)
  show "mset (?t2 ! b) = mset (bucket_anchors (rehash_fn hf (length tbl) []) b ns)"
  proof (cases "b < length tbl")
    case True
    then show ?thesis using table_okD[OF t True] by (simp add: f nth_append)
  next
    case False
    then have "?t2 ! b = []" using b by (simp add: nth_append)
    moreover have "bucket_ms (\<lambda>k. hf k mod length tbl) b ?A = {#}"
    proof (rule bucket_ms_none)
      fix p k
      have "hf k mod length tbl < length tbl" using ne by simp
      then show "hf k mod length tbl \<noteq> b" using False by linarith
    qed
    ultimately show ?thesis by (simp add: f mset_bucket_anchors)
  qed
qed

lemma ReHash_ok:
  assumes c: "chain_ok (elements_f m)" and ne: "table_f m \<noteq> []"
    and t: "table_ok (\<lambda>k. hash_f m k mod length (table_f m)) (elements_f m) (table_f m)"
  shows "\<exists>tbl'. ReHash m = Inr (m\<lparr>table_f := tbl'\<rparr>) \<and> length tbl' = 2 * length (table_f m) \<and>
           table_ok (\<lambda>k. hash_f m k mod length tbl') (elements_f m) tbl'"
proof -
  let ?B = "length (table_f m)"
  have B: "0 < ?B" using ne by simp
  have l2: "length (table_f m @ replicate ?B []) = 2 * ?B" by simp
  have "elements_f m = [] @ elements_f m" by simp
  from ReHash_loop_ok[OF c B this l2 table_ok_resize[OF t ne]]
  obtain tbl' where "ReHash_loop (hash_f m) (elements_f m) ?B (elements_f m) (table_f m @ replicate ?B []) = Inr tbl'"
    "length tbl' = 2 * ?B" "table_ok (\<lambda>k. hash_f m k mod (2 * ?B)) (elements_f m) tbl'" by blast
  then show ?thesis by (auto simp: ReHash_def Let_def)
qed

lemma load_exceeded_iff: "0 < B \<Longrightarrow> load_exceeded s B \<longleftrightarrow> B < s"
  by (simp add: load_exceeded_def maxLoadFactor_def field_simps)

lemma chain_ok_push_front:
  assumes "chain_ok ns" and "k \<notin> set (map (fst \<circ> snd) ns)"
  shows "chain_ok (push_front (k, x) ns)"
  using assms fresh_addr_notin[of ns] by (auto simp: chain_ok_def push_front_def)

lemma insert_table_ok_empty:
  assumes fk: "f k < length tbl" and t: "table_ok f [] tbl"
  shows "table_ok f [(a, (k, x))] (tbl[f k := Before_begin # tbl ! f k])"
proof (rule table_okI)
  fix a' k' v' assume "(a', (k', v')) \<in> set [(a, (k, x))]"
  then show "f k' < length (tbl[f k := Before_begin # tbl ! f k])" using fk by simp
next
  fix b assume "b < length (tbl[f k := Before_begin # tbl ! f k])"
  then have b: "b < length tbl" by simp
  have "mset (tbl ! b) = {#}" using table_okD[OF t b] by (simp add: bucket_anchors_def)
  then show "mset (tbl[f k := Before_begin # tbl ! f k] ! b) = mset (bucket_anchors f b [(a, (k, x))])"
    using b by (cases "b = f k") (simp_all add: bucket_anchors_def)
qed

lemma insert_table_ok_front:
  assumes fk: "f k < length tbl" and t: "table_ok f ((a0, (k0, x0)) # r) tbl"
    and i: "i < length (tbl ! f k0)" "tbl ! f k0 ! i = Before_begin"
  shows "table_ok f ((a, (k, x)) # (a0, (k0, x0)) # r)
           ((tbl[f k0 := (tbl ! f k0)[i := Node a]])
              [f k := Before_begin # (tbl[f k0 := (tbl ! f k0)[i := Node a]]) ! f k])"
    (is "table_ok f ?ns' ?tbl2")
proof (rule table_okI)
  fix a' k' v' assume "(a', (k', v')) \<in> set ?ns'"
  then show "f k' < length ?tbl2" using fk table_ok_range[OF t] by auto
next
  let ?tbl1 = "tbl[f k0 := (tbl ! f k0)[i := Node a]]"
  let ?R = "mset (anchored (Node a0) r)"
  fix b assume "b < length ?tbl2"
  then have b: "b < length tbl" by simp
  have fk0: "f k0 < length tbl" using table_ok_range[OF t, of a0 k0 x0] by simp
  have old: "mset (tbl ! b) = (if f k0 = b then add_mset Before_begin (bucket_ms f b ?R) else bucket_ms f b ?R)"
    using table_okD[OF t b] by (simp add: mset_bucket_anchors)
  have new: "mset (bucket_anchors f b ?ns') =
             (if f k = b then add_mset Before_begin
                  (if f k0 = b then add_mset (Node a) (bucket_ms f b ?R) else bucket_ms f b ?R)
              else (if f k0 = b then add_mset (Node a) (bucket_ms f b ?R) else bucket_ms f b ?R))"
    by (simp add: mset_bucket_anchors)
  have t1: "mset (?tbl1 ! b) = (if f k0 = b then add_mset (Node a) (bucket_ms f b ?R) else bucket_ms f b ?R)"
  proof (cases "f k0 = b")
    case True
    then have "mset (?tbl1 ! b) = add_mset (Node a) (mset (tbl ! f k0) - {#Before_begin#})"
      using fk0 i by (simp add: mset_update)
    then show ?thesis using old True by simp
  next
    case False
    then show ?thesis using old by simp
  qed
  have "mset (?tbl2 ! b) = (if f k = b then add_mset Before_begin (mset (?tbl1 ! b)) else mset (?tbl1 ! b))"
    using fk by (cases "f k = b") simp_all
  then show "mset (?tbl2 ! b) = mset (bucket_anchors f b ?ns')"
    by (simp only: t1 new)
qed

lemma insert_map_absent:
  assumes v: "valid m" and no: "k \<notin> fst ` set (traverse m)"
  shows "\<exists>m'. insert_map (k, x) m = Inr m' \<and> valid m' \<and> hash_f m' = hash_f m \<and>
           elements_f m' = (fresh_addr (elements_f m), (k, x)) # elements_f m \<and>
           size_f m' = Suc (size_f m) \<and>
           length (table_f m') =
             (if length (table_f m) < Suc (size_f m) then 2 * length (table_f m)
              else length (table_f m))"
proof -
  let ?ns = "elements_f m" and ?tbl = "table_f m"
  let ?f = "\<lambda>k. hash_f m k mod length (table_f m)"
  let ?a = "fresh_addr ?ns"
  let ?ns' = "(?a, (k, x)) # ?ns"
  from v have c: "chain_ok ?ns" and t: "table_ok ?f ?ns ?tbl" and ne: "?tbl \<noteq> []"
    and sz: "size_f m = length ?ns"
    by (simp_all add: valid_def)
  have nk: "k \<notin> set (map (fst \<circ> snd) ?ns)" using no by (simp add: traverse_def image_image)
  have c': "chain_ok ?ns'" using chain_ok_push_front[OF c nk] by (simp add: push_front_def)
  have fk: "?f k < length ?tbl" using ne by simp
  have fnd: "find_map k m = Inr End" by (rule find_map_absent[OF v no])
  have "\<exists>tbl2. table_ok ?f ?ns' tbl2 \<and> length tbl2 = length ?tbl \<and>
          insert_map (k, x) m =
            (let m3 = m\<lparr>elements_f := ?ns', size_f := Suc (size_f m), table_f := tbl2\<rparr>
             in if load_exceeded (size_f m3) (length (table_f m3)) then ReHash m3 else Inr m3)"
  proof (cases ?ns)
    case Nil
    let ?tbl2 = "?tbl[?f k := Before_begin # ?tbl ! ?f k]"
    have "table_ok ?f [(?a, (k, x))] ?tbl2"
      using insert_table_ok_empty[of ?f k ?tbl ?a x] fk t Nil by simp
    moreover have "insert_map (k, x) m =
            (let m3 = m\<lparr>elements_f := ?ns', size_f := Suc (size_f m), table_f := ?tbl2\<rparr>
             in if load_exceeded (size_f m3) (length (table_f m3)) then ReHash m3 else Inr m3)"
      using fnd Nil sz ne by (simp add: insert_map_def Let_def push_front_def bucket_of_def)
    ultimately show ?thesis using Nil by auto
  next
    case (Cons n r)
    obtain a0 k0 x0 where n: "n = (a0, (k0, x0))" by (cases n) auto
    have ns: "?ns = (a0, (k0, x0)) # r" using Cons n by simp
    have pk: "(Before_begin, k0) \<in> set (anchored Before_begin ?ns)" by (simp add: ns)
    from Find_Previous_present[OF c t pk] obtain i where
      i: "Find_Previous_In_Bucket (?f k0) k0 ?ns ?tbl = Inr i" "i < length (?tbl ! ?f k0)"
         "?tbl ! ?f k0 ! i = Before_begin" by blast
    let ?tbl1 = "?tbl[?f k0 := (?tbl ! ?f k0)[i := Node ?a]]"
    let ?tbl2 = "?tbl1[?f k := Before_begin # ?tbl1 ! ?f k]"
    have t2: "table_ok ?f ?ns' ?tbl2"
      using insert_table_ok_front[of ?f k ?tbl a0 k0 x0 r i ?a x] fk t i(2,3) ns by simp
    have dr: "deref ?ns (begin_fl ?ns) = Inr (k0, x0)" by (simp add: ns begin_fl_def)
    have "insert_map (k, x) m =
            (let m3 = m\<lparr>elements_f := ?ns', size_f := Suc (size_f m), table_f := ?tbl2\<rparr>
             in if load_exceeded (size_f m3) (length (table_f m3)) then ReHash m3 else Inr m3)"
      unfolding insert_map_def
      using fnd sz ne dr i by (simp add: Let_def push_front_def bucket_of_def begin_fl_def ns)
    with t2 show ?thesis by auto
  qed
  then obtain tbl2 where
    t2: "table_ok ?f ?ns' tbl2" and l2: "length tbl2 = length ?tbl" and
    ins: "insert_map (k, x) m =
            (let m3 = m\<lparr>elements_f := ?ns', size_f := Suc (size_f m), table_f := tbl2\<rparr>
             in if load_exceeded (size_f m3) (length (table_f m3)) then ReHash m3 else Inr m3)"
    by blast
  let ?m3 = "m\<lparr>elements_f := ?ns', size_f := Suc (size_f m), table_f := tbl2\<rparr>"
  have ne2: "tbl2 \<noteq> []" using l2 ne by auto
  have B: "0 < length ?tbl" using ne by simp
  have v3: "valid ?m3" using c' t2 ne2 sz l2 by (simp add: valid_def)
  show ?thesis
  proof (cases "length ?tbl < Suc (size_f m)")
    case True
    have "chain_ok (elements_f ?m3)" "table_f ?m3 \<noteq> []"
      "table_ok (\<lambda>k. hash_f ?m3 k mod length (table_f ?m3)) (elements_f ?m3) (table_f ?m3)"
      using c' ne2 t2 l2 by simp_all
    from ReHash_ok[OF this] obtain tbl' where
      r: "ReHash ?m3 = Inr (?m3\<lparr>table_f := tbl'\<rparr>)" "length tbl' = 2 * length tbl2"
         "table_ok (\<lambda>k. hash_f m k mod length tbl') ?ns' tbl'" by auto
    have "tbl' \<noteq> []" using r(2) ne2 by auto
    then have "valid (?m3\<lparr>table_f := tbl'\<rparr>)" using r(3) c' sz by (simp add: valid_def)
    moreover have "insert_map (k, x) m = Inr (?m3\<lparr>table_f := tbl'\<rparr>)"
      using ins True r(1) l2 B by (simp add: Let_def load_exceeded_iff)
    ultimately show ?thesis using True r(2) l2 by simp
  next
    case False
    have "insert_map (k, x) m = Inr ?m3"
      using ins False l2 B by (simp add: Let_def load_exceeded_iff)
    then show ?thesis using v3 False l2 by simp
  qed
qed

lemma insert_map_present:
  assumes "find_map k m = Inr it" and "it \<noteq> End"
  shows "insert_map (k, x) m = Inr m"
  using assms by (simp add: insert_map_def)

lemma erase_after_node_mid:
  "a' \<notin> fst ` set xs \<Longrightarrow>
   erase_after_node a' (xs @ (a', e') # n # ys) = Inr (xs @ (a', e') # ys)"
  by (induction xs) auto

lemma erase_after_pos_before:
  assumes "distinct (map fst (xs @ n # ys))"
  shows "erase_after (xs @ n # ys) (pos_before Before_begin xs) = Inr (xs @ ys)"
proof (cases xs rule: rev_cases)
  case Nil
  then show ?thesis by (simp add: pos_before_def)
next
  case (snoc xs' y)
  obtain a' e' where y: "y = (a', e')" by (cases y) auto
  from assms snoc y have "a' \<notin> fst ` set xs'" by auto
  from erase_after_node_mid[OF this, of e' n ys] show ?thesis
    using snoc y by (simp add: pos_before_def)
qed

lemma chain_ok_remove:
  "chain_ok (xs @ n # ys) \<Longrightarrow> chain_ok (xs @ ys)"
  by (auto simp: chain_ok_def)

lemma erase_table_ok_last:
  assumes t: "table_ok f (xs @ [(a, (k, x))]) tbl"
    and i: "i < length (tbl ! f k)" "tbl ! f k ! i = pos_before Before_begin xs"
  shows "table_ok f xs (tbl[f k := take i (tbl ! f k) @ drop (Suc i) (tbl ! f k)])"
    (is "table_ok f xs ?tbl'")
proof (rule table_okI)
  fix a' k' v' assume "(a', (k', v')) \<in> set xs"
  then show "f k' < length ?tbl'" using table_ok_range[OF t, of a' k' v'] by simp
next
  let ?p = "pos_before Before_begin xs"
  let ?X = "mset (anchored Before_begin xs)"
  fix b assume "b < length ?tbl'"
  then have b: "b < length tbl" by simp
  have old: "mset (tbl ! b) = bucket_ms f b ?X + (if f k = b then {#?p#} else {#})"
    using table_okD[OF t b] by (simp add: mset_bucket_anchors anchored_append)
  have "mset (?tbl' ! b) = (if f k = b then mset (tbl ! b) - {#?p#} else mset (tbl ! b))"
    using b i by (auto simp: mset_erase_nth)
  then show "mset (?tbl' ! b) = mset (bucket_anchors f b xs)"
    using old by (simp add: mset_bucket_anchors)
qed

lemma erase_table_ok_mid:
  assumes t: "table_ok f (xs @ (a, (k, x)) # (a', (k', x')) # ys) tbl"
    and i: "i < length (tbl ! f k)" "tbl ! f k ! i = pos_before Before_begin xs"
    and kt: "kt < length (tbl ! f k')" "tbl ! f k' ! kt = Node a"
  shows "table_ok f (xs @ (a', (k', x')) # ys)
           ((tbl[f k' := (tbl ! f k')[kt := pos_before Before_begin xs]])
              [f k := take i ((tbl[f k' := (tbl ! f k')[kt := pos_before Before_begin xs]]) ! f k) @
                      drop (Suc i) ((tbl[f k' := (tbl ! f k')[kt := pos_before Before_begin xs]]) ! f k)])"
    (is "table_ok f ?ns' ?tbl2")
proof (rule table_okI)
  fix a1 k1 v1 assume "(a1, (k1, v1)) \<in> set ?ns'"
  then show "f k1 < length ?tbl2" using table_ok_range[OF t, of a1 k1 v1] by auto
next
  let ?p = "pos_before Before_begin xs"
  let ?tbl1 = "tbl[f k' := (tbl ! f k')[kt := ?p]]"
  let ?X = "bucket_ms f b (mset (anchored Before_begin xs))"
  fix b assume "b < length ?tbl2"
  then have b: "b < length tbl" by simp
  let ?R = "bucket_ms f b (mset (anchored Before_begin xs)) + bucket_ms f b (mset (anchored (Node a') ys))"
  have fk: "f k < length tbl" using table_ok_range[OF t, of a k x] by simp
  have fk': "f k' < length tbl" using table_ok_range[OF t, of a' k' x'] by simp
  have old: "mset (tbl ! b) = (if f k = b then {#?p#} else {#}) + (if f k' = b then {#Node a#} else {#}) + ?R"
    using table_okD[OF t b] by (simp add: mset_bucket_anchors anchored_append)
  have new: "mset (bucket_anchors f b ?ns') = (if f k' = b then {#?p#} else {#}) + ?R"
    by (simp add: mset_bucket_anchors anchored_append)
  have t1: "mset (?tbl1 ! b) = (if f k' = b then add_mset ?p (mset (tbl ! b) - {#Node a#}) else mset (tbl ! b))"
    using b kt by (auto simp: mset_update)
  have i1: "i < length (?tbl1 ! f k)" using i fk by (cases "f k = f k'") simp_all
  have p1: "?tbl1 ! f k ! i = ?p" using i fk kt by (cases "f k = f k'") (simp_all add: nth_list_update)
  have t2: "mset (?tbl2 ! b) = (if f k = b then mset (?tbl1 ! b) - {#?p#} else mset (?tbl1 ! b))"
  proof (cases "f k = b")
    case True
    have "?tbl2 ! b = take i (?tbl1 ! f k) @ drop (Suc i) (?tbl1 ! f k)" using True b by simp
    then have "mset (?tbl2 ! b) = mset (?tbl1 ! f k) - {#?tbl1 ! f k ! i#}"
      using mset_erase_nth[OF i1] by simp
    then show ?thesis using True p1 by simp
  next
    case False
    then show ?thesis by simp
  qed
  show "mset (?tbl2 ! b) = mset (bucket_anchors f b ?ns')"
    unfolding t2 t1 new old by (cases "f k = b"; cases "f k' = b") simp_all
qed

lemma erase_absent:
  assumes v: "valid m" and no: "k \<notin> fst ` set (traverse m)"
  shows "erase k m = Inr m"
proof -
  let ?ns = "elements_f m" and ?tbl = "table_f m"
  let ?f = "\<lambda>k. hash_f m k mod length (table_f m)"
  from v have c: "chain_ok ?ns" and t: "table_ok ?f ?ns ?tbl" and ne: "?tbl \<noteq> []"
    by (simp_all add: valid_def)
  have b: "?f k < length ?tbl" using ne by simp
  have "k \<notin> set (map (fst \<circ> snd) ?ns)" using no by (simp add: traverse_def image_image)
  then have "k \<notin> set (map (fst \<circ> snd) ?ns) \<or> ?f k \<noteq> ?f k" by blast
  from Find_Previous_absent[OF c t b this]
  have fp: "Find_Previous_In_Bucket (?f k) k ?ns ?tbl = Inr (length (?tbl ! ?f k))" .
  show ?thesis using fp ne by (simp add: erase_def bucket_of_def)
qed

lemma erase_present:
  assumes v: "valid m" and s: "elements_f m = xs @ (a, (k, x)) # ys"
  shows "\<exists>m'. erase k m = Inr m' \<and> valid m' \<and> hash_f m' = hash_f m \<and>
           elements_f m' = xs @ ys \<and> size_f m' = size_f m - 1 \<and>
           length (table_f m') = length (table_f m)"
proof -
  let ?ns = "elements_f m" and ?tbl = "table_f m"
  let ?f = "\<lambda>k. hash_f m k mod length (table_f m)"
  let ?p = "pos_before Before_begin xs"
  from v have c: "chain_ok ?ns" and t: "table_ok ?f ?ns ?tbl" and ne: "?tbl \<noteq> []"
    and sz: "size_f m = length ?ns"
    by (simp_all add: valid_def)
  have d: "distinct (map fst (xs @ (a, (k, x)) # ys))" using c s by (simp add: chain_ok_def)
  have c': "chain_ok (xs @ ys)" using c s chain_ok_remove[of xs "(a, (k, x))" ys] by simp
  have pk: "(?p, k) \<in> set (anchored Before_begin ?ns)" unfolding s by (rule anchored_mid)
  from Find_Previous_present[OF c t pk] obtain i where
    i: "Find_Previous_In_Bucket (?f k) k ?ns ?tbl = Inr i" "i < length (?tbl ! ?f k)"
       "?tbl ! ?f k ! i = ?p" by blast
  have jt: "next_fl ?ns ?p = Inr (Node a)" unfolding s by (rule next_fl_pos_before[OF d])
  have "a \<notin> fst ` set xs" using d by auto
  from next_node_append[OF this, of "(k, x)" ys]
  have njt: "next_fl ?ns (Node a) = Inr (begin_fl ys)" by (simp add: s)
  have er: "erase_after ?ns ?p = Inr (xs @ ys)" unfolding s by (rule erase_after_pos_before[OF d])
  have "\<exists>tbl'. table_ok ?f (xs @ ys) tbl' \<and> length tbl' = length ?tbl \<and>
          erase k m = Inr (m\<lparr>elements_f := xs @ ys, size_f := size_f m - 1, table_f := tbl'\<rparr>)"
  proof (cases ys)
    case Nil
    let ?tbl' = "?tbl[?f k := take i (?tbl ! ?f k) @ drop (Suc i) (?tbl ! ?f k)]"
    have "table_ok ?f xs ?tbl'"
      using erase_table_ok_last[of ?f xs a k x ?tbl i] t i(2,3) s Nil by simp
    moreover have "erase k m = Inr (m\<lparr>elements_f := xs @ ys, size_f := size_f m - 1, table_f := ?tbl'\<rparr>)"
      unfolding erase_def using i jt njt er ne Nil
      by (simp add: Let_def bucket_of_def begin_fl_def)
    ultimately show ?thesis using Nil by auto
  next
    case (Cons n ys')
    obtain a' k' x' where n: "n = (a', (k', x'))" by (cases n) auto
    have s': "?ns = xs @ (a, (k, x)) # (a', (k', x')) # ys'" using s Cons n by simp
    have "(pos_before Before_begin (xs @ [(a, (k, x))]), k') \<in>
            set (anchored Before_begin ((xs @ [(a, (k, x))]) @ (a', (k', x')) # ys'))"
      by (rule anchored_mid)
    then have pk': "(Node a, k') \<in> set (anchored Before_begin ?ns)"
      by (simp add: s' pos_before_def)
    from Find_Previous_present[OF c t pk'] obtain kt where
      kt: "Find_Previous_In_Bucket (?f k') k' ?ns ?tbl = Inr kt" "kt < length (?tbl ! ?f k')"
          "?tbl ! ?f k' ! kt = Node a" by blast
    have "distinct (map fst ((xs @ [(a, (k, x))]) @ (a', (k', x')) # ys'))" using d Cons n by simp
    from deref_mid[OF this] have dr: "deref ?ns (Node a') = Inr (k', x')" by (simp add: s')
    let ?tbl1 = "?tbl[?f k' := (?tbl ! ?f k')[kt := ?p]]"
    let ?tbl2 = "?tbl1[?f k := take i (?tbl1 ! ?f k) @ drop (Suc i) (?tbl1 ! ?f k)]"
    have "table_ok ?f (xs @ (a', (k', x')) # ys') ?tbl2"
      using erase_table_ok_mid[of ?f xs a k x a' k' x' ys' ?tbl i kt] t i(2,3) kt(2,3) s' by simp
    moreover have "erase k m = Inr (m\<lparr>elements_f := xs @ ys, size_f := size_f m - 1, table_f := ?tbl2\<rparr>)"
      unfolding erase_def using i jt njt er ne Cons n dr kt
      by (simp add: Let_def bucket_of_def begin_fl_def)
    ultimately show ?thesis using Cons n by auto
  qed
  then obtain tbl' where
    r: "table_ok ?f (xs @ ys) tbl'" "length tbl' = length ?tbl"
       "erase k m = Inr (m\<lparr>elements_f := xs @ ys, size_f := size_f m - 1, table_f := tbl'\<rparr>)"
    by blast
  have "tbl' \<noteq> []" using r(2) ne by auto
  then have "valid (m\<lparr>elements_f := xs @ ys, size_f := size_f m - 1, table_f := tbl'\<rparr>)"
    using r(1,2) c' sz s by (simp add: valid_def)
  then show ?thesis using r by simp
qed

lemma lookup_present:
  assumes v: "valid m" and el: "(a, (k, x)) \<in> set (elements_f m)"
  shows "\<exists>i. Find_Previous_In_Bucket (hash_f m k mod length (table_f m)) k (elements_f m) (table_f m) = Inr i \<and>
             i < length (table_f m ! (hash_f m k mod length (table_f m))) \<and>
             next_fl (elements_f m) (table_f m ! (hash_f m k mod length (table_f m)) ! i) = Inr (Node a) \<and>
             deref (elements_f m) (Node a) = Inr (k, x)"
proof -
  let ?ns = "elements_f m" and ?tbl = "table_f m"
  let ?f = "\<lambda>k. hash_f m k mod length (table_f m)"
  from v have c: "chain_ok ?ns" and t: "table_ok ?f ?ns ?tbl" and ne: "?tbl \<noteq> []"
    by (simp_all add: valid_def)
  from split_list[OF el] obtain xs ys where s: "?ns = xs @ (a, (k, x)) # ys" by blast
  let ?p = "pos_before Before_begin xs"
  have pk: "(?p, k) \<in> set (anchored Before_begin ?ns)"
    unfolding s by (rule anchored_mid)
  from Find_Previous_present[OF c t pk] obtain i where
    i: "Find_Previous_In_Bucket (?f k) k ?ns ?tbl = Inr i" "i < length (?tbl ! ?f k)"
       "?tbl ! ?f k ! i = ?p" by blast
  have d: "distinct (map fst (xs @ (a, (k, x)) # ys))" using c s by (simp add: chain_ok_def)
  have nx: "next_fl ?ns ?p = Inr (Node a)"
    unfolding s by (rule next_fl_pos_before[OF d])
  have dr: "deref ?ns (Node a) = Inr (k, x)"
    unfolding s by (rule deref_mid[OF d])
  show ?thesis using i nx dr by auto
qed

lemma operator_index_present:
  assumes v: "valid m" and el: "(a, (k, x)) \<in> set (elements_f m)"
  shows "operator_index dflt k m = Inr (Node a, m)"
proof -
  from v have ne: "table_f m \<noteq> []" by (simp add: valid_def)
  from lookup_present[OF v el] show ?thesis
    using ne by (auto simp: operator_index_def bucket_of_def)
qed

lemma operator_index_absent:
  assumes v: "valid m" and no: "k \<notin> fst ` set (traverse m)"
  shows "\<exists>m'. insert_map (k, dflt) m = Inr m' \<and>
           operator_index dflt k m = Inr (Node (fresh_addr (elements_f m)), m') \<and>
           deref (elements_f m') (Node (fresh_addr (elements_f m))) = Inr (k, dflt)"
proof -
  let ?ns = "elements_f m" and ?tbl = "table_f m"
  let ?f = "\<lambda>k. hash_f m k mod length (table_f m)"
  from v have c: "chain_ok ?ns" and t: "table_ok ?f ?ns ?tbl" and ne: "?tbl \<noteq> []"
    by (simp_all add: valid_def)
  have b: "?f k < length ?tbl" using ne by simp
  have "k \<notin> set (map (fst \<circ> snd) ?ns)" using no by (simp add: traverse_def image_image)
  then have "k \<notin> set (map (fst \<circ> snd) ?ns) \<or> ?f k \<noteq> ?f k" by blast
  from Find_Previous_absent[OF c t b this]
  have fp: "Find_Previous_In_Bucket (?f k) k ?ns ?tbl = Inr (length (?tbl ! ?f k))" .
  from insert_map_absent[OF v no, of dflt] obtain m' where
    m': "insert_map (k, dflt) m = Inr m'"
        "elements_f m' = (fresh_addr ?ns, (k, dflt)) # ?ns" by blast
  have "operator_index dflt k m = Inr (Node (fresh_addr ?ns), m')"
    using fp ne m' by (simp add: operator_index_def bucket_of_def begin_fl_def)
  then show ?thesis using m' by simp
qed

lemma clear_loop_res:
  "tbl \<noteq> [] \<Longrightarrow>
   \<exists>tbl'. clear_loop hf ns tbl = Inr tbl' \<and> length tbl' = length tbl \<and>
     (\<forall>b < length tbl. tbl' ! b =
        (if b \<in> (\<lambda>n. hf (fst (snd n)) mod length tbl) ` set ns then [] else tbl ! b))"
proof (induction ns arbitrary: tbl)
  case Nil
  then show ?case by simp
next
  case (Cons n ns)
  obtain a p where n: "n = (a, p)" by (cases n) auto
  let ?c = "hf (fst p) mod length tbl"
  let ?tbl1 = "tbl[?c := []]"
  have ne1: "?tbl1 \<noteq> []" using Cons.prems by simp
  from Cons.IH[OF ne1] obtain tbl' where
    r: "clear_loop hf ns ?tbl1 = Inr tbl'" "length tbl' = length ?tbl1"
       "\<forall>b < length ?tbl1. tbl' ! b =
          (if b \<in> (\<lambda>n. hf (fst (snd n)) mod length ?tbl1) ` set ns then [] else ?tbl1 ! b)"
    by blast
  have "clear_loop hf (n # ns) tbl = Inr tbl'" using r(1) n Cons.prems by simp
  moreover have "length tbl' = length tbl" using r(2) by simp
  moreover have "\<forall>b < length tbl. tbl' ! b =
        (if b \<in> (\<lambda>n. hf (fst (snd n)) mod length tbl) ` set (n # ns) then [] else tbl ! b)"
  proof (intro allI impI)
    fix b assume b: "b < length tbl"
    show "tbl' ! b = (if b \<in> (\<lambda>n. hf (fst (snd n)) mod length tbl) ` set (n # ns) then [] else tbl ! b)"
      using r(3) b n by (cases "b = ?c") auto
  qed
  ultimately show ?case by blast
qed

lemma clear_valid:
  assumes v: "valid m"
  shows "clear m = Inr (m\<lparr>elements_f := [], table_f := replicate (length (table_f m)) [], size_f := 0\<rparr>)"
proof -
  let ?ns = "elements_f m" and ?tbl = "table_f m"
  let ?f = "\<lambda>k. hash_f m k mod length (table_f m)"
  let ?A = "mset (anchored Before_begin ?ns)"
  from v have c: "chain_ok ?ns" and t: "table_ok ?f ?ns ?tbl" and ne: "?tbl \<noteq> []"
    by (simp_all add: valid_def)
  from clear_loop_res[OF ne, of "hash_f m" ?ns] obtain tbl' where
    r: "clear_loop (hash_f m) ?ns ?tbl = Inr tbl'" "length tbl' = length ?tbl"
       "\<forall>b < length ?tbl. tbl' ! b =
          (if b \<in> (\<lambda>n. hash_f m (fst (snd n)) mod length ?tbl) ` set ?ns then [] else ?tbl ! b)"
    by blast
  have e: "tbl' ! b = []" if b: "b < length ?tbl" for b
  proof (cases "b \<in> (\<lambda>n. hash_f m (fst (snd n)) mod length ?tbl) ` set ?ns")
    case True
    then show ?thesis using r(3) b by simp
  next
    case False
    have "bucket_ms ?f b ?A = {#}"
    proof (rule bucket_ms_none)
      fix p k assume "(p, k) \<in># ?A"
      then have "(p, k) \<in> set (anchored Before_begin ?ns)" by (simp only: set_mset_mset)
      from anchored_key_in_chain[OF this] obtain n where
        n: "n \<in> set ?ns" "fst (snd n) = k" by auto
      show "?f k \<noteq> b"
      proof
        assume "?f k = b"
        with n have "b \<in> (\<lambda>n. hash_f m (fst (snd n)) mod length ?tbl) ` set ?ns" by blast
        with False show False by contradiction
      qed
    qed
    then have "mset (?tbl ! b) = {#}" using table_okD[OF t b] by (simp only: mset_bucket_anchors)
    then have "?tbl ! b = []" by simp
    then show ?thesis using r(3) b False by simp
  qed
  have "tbl' = replicate (length ?tbl) []"
  proof (rule nth_equalityI)
    show "length tbl' = length (replicate (length ?tbl) [])" using r(2) by simp
  next
    fix i assume "i < length tbl'"
    then have "i < length ?tbl" using r(2) by simp
    then show "tbl' ! i = replicate (length ?tbl) [] ! i" using e by simp
  qed
  then show ?thesis using r(1) by (simp add: clear_def)
qed

lemma valid_cleared:
  "B \<noteq> 0 \<Longrightarrow> valid \<lparr>hash_f = h, elements_f = [], table_f = replicate B [], size_f = 0\<rparr>"
  by (simp add: valid_def chain_ok_def table_ok_def list_all_iff bucket_anchors_def)

lemma valid_init: "valid (UnorderedMap_init h)"
  by (simp add: UnorderedMap_init_def valid_def chain_ok_def table_ok_def bucket_anchors_def)

lemma clear_valid':
  assumes v: "valid m"
  shows "\<exists>m'. clear m = Inr m' \<and> valid m' \<and> elements_f m' = [] \<and> size_f m' = 0 \<and>
           hash_f m' = hash_f m \<and> table_f m' = replicate (length (table_f m)) []"
proof -
  from v have "length (table_f m) \<noteq> 0" by (simp add: valid_def)
  from valid_cleared[OF this, of "hash_f m"] have "valid (m\<lparr>elements_f := [], table_f := replicate (length (table_f m)) [], size_f := 0\<rparr>)"
    by (cases m) simp
  then show ?thesis using clear_valid[OF v] by simp
qed

lemma traverse_keys: "fst ` set (traverse m) = set (map (fst \<circ> snd) (elements_f m))"
  by (simp add: traverse_def image_image)

lemma key_present_node:
  assumes "k \<in> fst ` set (traverse m)"
  obtains a x where "(a, (k, x)) \<in> set (elements_f m)"
  using assms by (auto simp: traverse_def)

lemma insert_map_valid:
  assumes v: "valid m"
  shows "\<exists>m'. insert_map p m = Inr m' \<and> valid m' \<and> hash_f m' = hash_f m \<and>
           (load_ok m \<longrightarrow> load_ok m')"
proof (cases "fst p \<in> fst ` set (traverse m)")
  case True
  then obtain a x where "(a, (fst p, x)) \<in> set (elements_f m)" by (rule key_present_node)
  from find_map_present(1)[OF v this] have "insert_map (fst p, snd p) m = Inr m"
    by (rule insert_map_present) simp
  then show ?thesis using v by simp
next
  case False
  from insert_map_absent[OF v False, of "snd p"] obtain m' where
    m': "insert_map (fst p, snd p) m = Inr m'" "valid m'" "hash_f m' = hash_f m"
        "size_f m' = Suc (size_f m)"
        "length (table_f m') = (if length (table_f m) < Suc (size_f m) then 2 * length (table_f m)
              else length (table_f m))" by blast
  have B: "0 < length (table_f m)" using v by (simp add: valid_def)
  have "load_ok m \<longrightarrow> load_ok m'"
  proof
    assume "load_ok m"
    then have le: "size_f m \<le> length (table_f m)" by (simp only: load_ok_def)
    show "load_ok m'"
    proof (cases "length (table_f m) < Suc (size_f m)")
      case True
      then have "length (table_f m') = 2 * length (table_f m)" using m'(5) by (simp only: if_True)
      then show ?thesis unfolding load_ok_def m'(4) using le B by linarith
    next
      case False
      then have "length (table_f m') = length (table_f m)" using m'(5) by (simp only: if_False)
      then show ?thesis unfolding load_ok_def m'(4) using False by linarith
    qed
  qed
  then show ?thesis using m' by simp
qed

lemma insert_range_valid:
  "valid m \<Longrightarrow> \<exists>m'. insert_range ps m = Inr m' \<and> valid m' \<and> hash_f m' = hash_f m \<and>
      (load_ok m \<longrightarrow> load_ok m')"
proof (induction ps arbitrary: m)
  case Nil
  then show ?case by simp
next
  case (Cons p ps)
  from insert_map_valid[OF Cons.prems, of p] obtain m1 where
    m1: "insert_map p m = Inr m1" "valid m1" "hash_f m1 = hash_f m" "load_ok m \<longrightarrow> load_ok m1"
    by blast
  from Cons.IH[OF m1(2)] obtain m' where
    "insert_range ps m1 = Inr m'" "valid m'" "hash_f m' = hash_f m1" "load_ok m1 \<longrightarrow> load_ok m'"
    by blast
  then show ?case using m1 by simp
qed

lemma insert_range_fresh:
  "valid m \<Longrightarrow> distinct (map fst ps) \<Longrightarrow> fst ` set ps \<inter> fst ` set (traverse m) = {} \<Longrightarrow>
   \<exists>m'. insert_range ps m = Inr m' \<and> valid m' \<and> hash_f m' = hash_f m \<and>
        traverse m' = rev ps @ traverse m \<and> size_f m' = size_f m + length ps"
proof (induction ps arbitrary: m)
  case Nil
  then show ?case by simp
next
  case (Cons p ps)
  have no: "fst p \<notin> fst ` set (traverse m)" using Cons.prems(3) by auto
  from insert_map_absent[OF Cons.prems(1) no, of "snd p"] obtain m1 where
    m1: "insert_map p m = Inr m1" "valid m1" "hash_f m1 = hash_f m"
        "elements_f m1 = (fresh_addr (elements_f m), (fst p, snd p)) # elements_f m"
        "size_f m1 = Suc (size_f m)" by auto
  have tr: "traverse m1 = p # traverse m" using m1(4) by (simp add: traverse_def)
  have d: "distinct (map fst ps)" using Cons.prems(2) by simp
  have "fst ` set ps \<inter> fst ` set (traverse m1) = {}"
    using Cons.prems(2,3) unfolding tr by auto
  from Cons.IH[OF m1(2) d this] obtain m' where
    "insert_range ps m1 = Inr m'" "valid m'" "hash_f m' = hash_f m1"
    "traverse m' = rev ps @ traverse m1" "size_f m' = size_f m1 + length ps" by blast
  then show ?case using m1 tr by simp
qed

lemma store_value_keeps:
  "store_value a v ns = Inr ns' \<Longrightarrow>
   map fst ns' = map fst ns \<and> map (fst \<circ> snd) ns' = map (fst \<circ> snd) ns"
proof (induction ns arbitrary: ns')
  case Nil
  then show ?case by simp
next
  case (Cons n ns)
  obtain a' e where n: "n = (a', e)" by (cases n) auto
  show ?case
  proof (cases "a = a'")
    case True
    then show ?thesis using Cons.prems n by auto
  next
    case False
    with Cons.prems n obtain r where r: "store_value a v ns = Inr r" "ns' = (a', e) # r"
      by (auto simp: and_then_eq_Inr)
    from Cons.IH[OF r(1)] show ?thesis using r(2) n by simp
  qed
qed

lemma anchored_cong:
  "map fst ns' = map fst ns \<Longrightarrow> map (fst \<circ> snd) ns' = map (fst \<circ> snd) ns \<Longrightarrow>
   anchored q ns' = anchored q ns"
proof (induction ns arbitrary: ns' q)
  case Nil
  then show ?case by simp
next
  case (Cons n ns)
  then obtain n' r where ns': "ns' = n' # r" by (cases ns') auto
  obtain a e where n: "n = (a, e)" by (cases n) auto
  obtain a' e' where n': "n' = (a', e')" by (cases n') auto
  have "anchored (Node a) r = anchored (Node a) ns"
    using Cons.IH[of r "Node a"] Cons.prems ns' by simp
  then show ?case using Cons.prems ns' n n' by simp
qed

lemma assign_through_valid:
  assumes v: "valid m" and w: "assign_through r v m = Inr m'"
  shows "valid m' \<and> hash_f m' = hash_f m \<and> table_f m' = table_f m \<and> size_f m' = size_f m"
proof -
  from w obtain a ns' where a: "r = Node a" "store_value a v (elements_f m) = Inr ns'"
    "m' = m\<lparr>elements_f := ns'\<rparr>"
    by (auto simp: assign_through_def and_then_eq_Inr split: iterator.splits)
  from store_value_keeps[OF a(2)] have k: "map fst ns' = map fst (elements_f m)"
    "map (fst \<circ> snd) ns' = map (fst \<circ> snd) (elements_f m)" by simp_all
  have len: "length ns' = length (elements_f m)" using k(1) by (metis length_map)
  have anc: "anchored Before_begin ns' = anchored Before_begin (elements_f m)"
    by (rule anchored_cong[OF k])
  have la: "list_all (\<lambda>n. f (fst (snd n)) < B) ns' = list_all (\<lambda>n. f (fst (snd n)) < B) (elements_f m)" for f :: "'a \<Rightarrow> nat" and B
  proof -
    have "list_all (\<lambda>n. f (fst (snd n)) < B) xs = list_all (\<lambda>k. f k < B) (map (fst \<circ> snd) xs)" for xs :: "('a, 'b) forward_list"
      by (simp add: list_all_iff)
    then show ?thesis using k(2) by simp
  qed
  have tok: "table_ok f ns' tbl = table_ok f (elements_f m) tbl" for f :: "'a \<Rightarrow> nat" and tbl
    unfolding table_ok_def bucket_anchors_def anc la ..
  show ?thesis using v unfolding a(3)
    by (simp add: valid_def chain_ok_def k len tok)
qed

lemma operator_assign_cases:
  assumes "operator_assign this other s = Inr s'"
  obtains (self) m where "this = other" "s this = Some m" "s' = s"
  | (copy) m b m1 m2 where "this \<noteq> other" "s this = Some m" "s other = Some b"
      "clear m = Inr m1" "insert_range (traverse b) m1 = Inr m2" "s' = s(this \<mapsto> m2)"
  using assms
  by (auto simp: operator_assign_def and_then_eq_Inr split: option.splits if_splits)

lemma reachable_valid:
  "reachable s \<Longrightarrow> s this = Some m \<Longrightarrow> valid m \<and> load_ok m"
proof (induction arbitrary: this m rule: reachable.induct)
  case construct_none
  then show ?case by simp
next
  case (construct s a h)
  show ?case
  proof (cases "this = a")
    case True
    then have "m = UnorderedMap_init h" using construct.prems by simp
    moreover have "load_ok (UnorderedMap_init h)" by (simp add: load_ok_def UnorderedMap_init_def)
    ultimately show ?thesis using valid_init[of h] by simp
  next
    case False
    then show ?thesis using construct.IH[of this m] construct.prems by simp
  qed
next
  case (call_insert s a m0 p m')
  show ?case
  proof (cases "this = a")
    case True
    from call_insert.IH[OF call_insert.hyps(2)] have v: "valid m0" "load_ok m0" by simp_all
    from insert_map_valid[OF v(1), of p] call_insert.hyps(3) v(2) call_insert.prems True
    show ?thesis by auto
  next
    case False
    then show ?thesis using call_insert.IH[of this m] call_insert.prems by simp
  qed
next
  case (call_erase s a m0 key m')
  show ?case
  proof (cases "this = a")
    case True
    from call_erase.IH[OF call_erase.hyps(2)] have v: "valid m0" "load_ok m0" by simp_all
    have "valid m' \<and> load_ok m'"
    proof (cases "key \<in> fst ` set (traverse m0)")
      case True
      then obtain a' x where "(a', (key, x)) \<in> set (elements_f m0)" by (rule key_present_node)
      from split_list[OF this] obtain xs ys where "elements_f m0 = xs @ (a', (key, x)) # ys" by blast
      from erase_present[OF v(1) this] call_erase.hyps(3) v(2) show ?thesis
        by (auto simp: load_ok_def)
    next
      case False
      from erase_absent[OF v(1) False] call_erase.hyps(3) v show ?thesis by simp
    qed
    then show ?thesis using call_erase.prems True by simp
  next
    case False
    then show ?thesis using call_erase.IH[of this m] call_erase.prems by simp
  qed
next
  case (call_index s a m0 dflt key r m')
  show ?case
  proof (cases "this = a")
    case True
    from call_index.IH[OF call_index.hyps(2)] have v: "valid m0" "load_ok m0" by simp_all
    have "valid m' \<and> load_ok m'"
    proof (cases "key \<in> fst ` set (traverse m0)")
      case True
      then obtain a' x where "(a', (key, x)) \<in> set (elements_f m0)" by (rule key_present_node)
      from operator_index_present[OF v(1) this, of dflt] call_index.hyps(3) v show ?thesis by simp
    next
      case False
      from operator_index_absent[OF v(1) False, of dflt] call_index.hyps(3)
      have "insert_map (key, dflt) m0 = Inr m'" by auto
      with insert_map_valid[OF v(1), of "(key, dflt)"] v(2) show ?thesis by auto
    qed
    then show ?thesis using call_index.prems True by simp
  next
    case False
    then show ?thesis using call_index.IH[of this m] call_index.prems by simp
  qed
next
  case (write_value s a m0 r v m')
  show ?case
  proof (cases "this = a")
    case True
    from write_value.IH[OF write_value.hyps(2)] have v: "valid m0" "load_ok m0" by simp_all
    from assign_through_valid[OF v(1) write_value.hyps(3)] v(2) write_value.prems True
    show ?thesis by (auto simp: load_ok_def)
  next
    case False
    then show ?thesis using write_value.IH[of this m] write_value.prems by simp
  qed
next
  case (call_clear s a m0 m')
  show ?case
  proof (cases "this = a")
    case True
    from call_clear.IH[OF call_clear.hyps(2)] have v: "valid m0" "load_ok m0" by simp_all
    from clear_valid'[OF v(1)] call_clear.hyps(3) call_clear.prems True
    show ?thesis by (auto simp: load_ok_def)
  next
    case False
    then show ?thesis using call_clear.IH[of this m] call_clear.prems by simp
  qed
next
  case (call_assign s a b s')
  from call_assign.hyps(2) show ?case
  proof (cases rule: operator_assign_cases)
    case (self m0)
    then show ?thesis using call_assign.IH[of this m] call_assign.prems by simp
  next
    case (copy m0 b0 m1 m2)
    show ?thesis
    proof (cases "this = a")
      case True
      from call_assign.IH[OF copy(2)] have v: "valid m0" by simp
      from clear_valid'[OF v] copy(4) have v1: "valid m1" "load_ok m1" by (auto simp: load_ok_def)
      from insert_range_valid[OF v1(1), of "traverse b0"] copy(5) v1(2)
      have "valid m2 \<and> load_ok m2" by auto
      then show ?thesis using call_assign.prems True copy(6) by simp
    next
      case False
      then show ?thesis using call_assign.IH[of this m] call_assign.prems copy(6) by simp
    qed
  qed
next
  case (call_ReHash s a m0 m')
  show ?case
  proof (cases "this = a")
    case True
    from call_ReHash.IH[OF call_ReHash.hyps(2)] have v: "valid m0" "load_ok m0" by simp_all
    from v(1) have c: "chain_ok (elements_f m0)" and ne: "table_f m0 \<noteq> []"
      and t: "table_ok (\<lambda>k. hash_f m0 k mod length (table_f m0)) (elements_f m0) (table_f m0)"
      and sz: "size_f m0 = length (elements_f m0)"
      by (simp_all add: valid_def)
    from ReHash_ok[OF c ne t] call_ReHash.hyps(3) obtain tbl' where
      r: "m' = m0\<lparr>table_f := tbl'\<rparr>" "length tbl' = 2 * length (table_f m0)"
         "table_ok (\<lambda>k. hash_f m0 k mod length tbl') (elements_f m0) tbl'" by auto
    have "tbl' \<noteq> []" using r(2) ne by auto
    then have "valid m'" using r(1,3) c sz by (simp add: valid_def)
    moreover have "load_ok m'" using v(2) r(1,2) by (simp add: load_ok_def)
    ultimately show ?thesis using call_ReHash.prems True by simp
  next
    case False
    then show ?thesis using call_ReHash.IH[of this m] call_ReHash.prems by simp
  qed
qed

lemma valid_example: "valid example_map"
  by (simp add: example_map_def valid_def chain_ok_def table_ok_def bucket_anchors_def
      numeral_2_eq_2)

lemma traverse_example: "traverse example_map = [(2, 20), (1, 10)]"
  by (simp add: traverse_def example_map_def)

lemma find_map_total:
  assumes v: "valid m"
  shows "(k \<in> fst ` set (traverse m) \<longrightarrow> (\<exists>a. find_map k m = Inr (Node a))) \<and>
         (k \<notin> fst ` set (traverse m) \<longrightarrow> find_map k m = Inr End)"
proof (intro conjI impI)
  assume "k \<in> fst ` set (traverse m)"
  then obtain a x where "(a, (k, x)) \<in> set (elements_f m)" by (rule key_present_node)
  from find_map_present(1)[OF v this] show "\<exists>a. find_map k m = Inr (Node a)" by blast
next
  assume "k \<notin> fst ` set (traverse m)"
  then show "find_map k m = Inr End" by (rule find_map_absent(1)[OF v])
qed

lemma at_body_traverse:
  assumes v: "valid m" and el: "(k, x) \<in> set (traverse m)"
  shows "at_body k m = Inr x"
proof -
  from el obtain a where "(a, (k, x)) \<in> set (elements_f m)" by (auto simp: traverse_def)
  then show ?thesis by (rule find_map_present(2)[OF v])
qed

lemma filter_key_mid:
  assumes "distinct (map fst (ps @ (k, x) # qs))"
  shows "filter (\<lambda>p. fst p \<noteq> k) (ps @ (k, x) # qs) = ps @ qs"
proof -
  have "\<forall>p \<in> set ps \<union> set qs. fst p \<noteq> k" using assms by force
  then show ?thesis by (simp add: filter_id_conv)
qed

lemma lookup_same_nodes:
  assumes v: "valid m" and v': "valid m'"
    and present: "\<And>a x. (a, (k, x)) \<in> set (elements_f m) \<Longrightarrow> (a, (k, x)) \<in> set (elements_f m')"
    and absent: "k \<notin> fst ` set (traverse m) \<Longrightarrow> k \<notin> fst ` set (traverse m')"
  shows "find_map k m' = find_map k m \<and> at_body k m' = at_body k m"
proof (cases "k \<in> fst ` set (traverse m)")
  case True
  then obtain a x where el: "(a, (k, x)) \<in> set (elements_f m)" by (rule key_present_node)
  from find_map_present(1,2)[OF v el] find_map_present(1,2)[OF v' present[OF el]]
  show ?thesis by simp
next
  case False
  from find_map_absent[OF v False] find_map_absent[OF v' absent[OF False]]
  show ?thesis by simp
qed

lemma load_le_iff: "0 < B \<Longrightarrow> real s / real B \<le> maxLoadFactor \<longleftrightarrow> s \<le> B"
  by (simp add: maxLoadFactor_def field_simps)

lemma one_map_built:
  "insert_map (1, 10) (UnorderedMap_init (\<lambda>k. k)) =
   Inr \<lparr>hash_f = (\<lambda>k. k), elements_f = [(0, (1, 10))], table_f = [[Before_begin]], size_f = 1\<rparr>"
  by (simp add: insert_map_def find_map_def bucket_of_def Find_Previous_In_Bucket_def
      UnorderedMap_init_def push_front_def begin_fl_def load_exceeded_def maxLoadFactor_def
      Let_def)

lemma example_map_built:
  "insert_map (2, 20)
     \<lparr>hash_f = (\<lambda>k. k), elements_f = [(0, (1, 10))], table_f = [[Before_begin]], size_f = 1\<rparr> =
   Inr example_map"
  by (simp add: insert_map_def find_map_def bucket_of_def Find_Previous_In_Bucket_def
      push_front_def begin_fl_def load_exceeded_def maxLoadFactor_def
      ReHash_def ReHash_step_def example_map_def Let_def numeral_2_eq_2)

lemma reachable_example: "reachable (Map.empty(0 \<mapsto> example_map))"
proof -
  have "reachable (Map.empty(0 \<mapsto> UnorderedMap_init (\<lambda>k. k) :: (nat, nat) UnorderedMap))"
    by (rule construct[OF construct_none]) simp
  from call_insert[OF this _ one_map_built, of 0]
  have "reachable (Map.empty(0 \<mapsto> \<lparr>hash_f = (\<lambda>k. k), elements_f = [(0, (1, 10))],
          table_f = [[Before_begin]], size_f = 1\<rparr> :: (nat, nat) UnorderedMap))"
    by simp
  from call_insert[OF this _ example_map_built, of 0] show ?thesis by simp
qed

lemma bucket_distinct:
  assumes c: "chain_ok ns" and t: "table_ok f ns tbl" and b: "b < length tbl"
  shows "distinct (tbl ! b)"
proof -
  have "distinct (map fst (anchored Before_begin ns))"
    by (rule distinct_anchors) (use c in \<open>auto simp: chain_ok_def\<close>)
  then have "distinct (bucket_anchors f b ns)"
    unfolding bucket_anchors_def by (rule distinct_map_filter)
  then show ?thesis using table_okD[OF t b] by (metis mset_eq_imp_distinct_iff)
qed

lemma entry_char:
  assumes c: "chain_ok ns" and t: "table_ok f ns tbl" and b: "b < length tbl"
    and q: "q \<in> set (tbl ! b)"
  shows "\<exists>xs a k x ys. ns = xs @ (a, (k, x)) # ys \<and> q = pos_before Before_begin xs \<and> f k = b \<and>
           next_fl ns q = Inr (Node a) \<and> deref ns (Node a) = Inr (k, x)"
proof -
  from q in_bucket[OF t b] obtain k where k: "(q, k) \<in> set (anchored Before_begin ns)" "f k = b"
    by blast
  from anchored_split[OF k(1)] obtain xs a x ys where
    s: "ns = xs @ (a, (k, x)) # ys" "q = pos_before Before_begin xs" by blast
  have d: "distinct (map fst (xs @ (a, (k, x)) # ys))" using c s(1) by (simp add: chain_ok_def)
  have "next_fl ns q = Inr (Node a)" unfolding s by (rule next_fl_pos_before[OF d])
  moreover have "deref ns (Node a) = Inr (k, x)" unfolding s(1) by (rule deref_mid[OF d])
  ultimately show ?thesis using s k(2) by blast
qed

lemma anchor_exactly_one:
  assumes v: "valid m" and el: "(a, (k, x)) \<in> set (elements_f m)"
  shows "\<exists>b i. b < length (table_f m) \<and> i < length (table_f m ! b) \<and>
           next_fl (elements_f m) (table_f m ! b ! i) = Inr (Node a) \<and>
           deref (elements_f m) (Node a) = Inr (k, x) \<and>
           (\<forall>b' i'. b' < length (table_f m) \<and> i' < length (table_f m ! b') \<and>
               next_fl (elements_f m) (table_f m ! b' ! i') = Inr (Node a) \<longrightarrow> b' = b \<and> i' = i) \<and>
           b = hash_f m k mod length (table_f m) \<and>
           (begin_map m = Node a \<longrightarrow> table_f m ! b ! i = Before_begin)"
proof -
  let ?ns = "elements_f m" and ?tbl = "table_f m"
  let ?f = "\<lambda>k. hash_f m k mod length (table_f m)"
  from v have c: "chain_ok ?ns" and t: "table_ok ?f ?ns ?tbl" and ne: "?tbl \<noteq> []"
    by (simp_all add: valid_def)
  have da: "distinct (map fst ?ns)" using c by (simp add: chain_ok_def)
  have bl: "?f k < length ?tbl" using ne by simp
  from lookup_present[OF v el] obtain i where
    i: "i < length (?tbl ! ?f k)" "next_fl ?ns (?tbl ! ?f k ! i) = Inr (Node a)"
       "deref ?ns (Node a) = Inr (k, x)" by blast
  \<comment> \<open>whatever entry has this node as its next is the anchor of key \<open>k\<close>\<close>
  have char: "b' = ?f k \<and> (?tbl ! b' ! i', k) \<in> set (anchored Before_begin ?ns)"
    if "b' < length ?tbl" "i' < length (?tbl ! b')" "next_fl ?ns (?tbl ! b' ! i') = Inr (Node a)"
    for b' i'
  proof -
    have "?tbl ! b' ! i' \<in> set (?tbl ! b')" using that(2) by simp
    from entry_char[OF c t that(1) this] obtain xs a' k' x' ys where
      e: "?ns = xs @ (a', (k', x')) # ys" "?tbl ! b' ! i' = pos_before Before_begin xs"
         "?f k' = b'" "next_fl ?ns (?tbl ! b' ! i') = Inr (Node a')" by blast
    from e(4) that(3) have "a' = a" by simp
    then have "(a, (k', x')) \<in> set ?ns" using e(1) by simp
    with el da have "k' = k" by (metis eq_key_imp_eq_value fst_conv)
    moreover have "(pos_before Before_begin xs, k') \<in> set (anchored Before_begin ?ns)"
      unfolding e(1) by (rule anchored_mid)
    ultimately show ?thesis using e(2,3) by simp
  qed
  have uniq: "b' = ?f k \<and> i' = i"
    if "b' < length ?tbl \<and> i' < length (?tbl ! b') \<and> next_fl ?ns (?tbl ! b' ! i') = Inr (Node a)"
    for b' i'
  proof -
    from that have t': "b' < length ?tbl" "i' < length (?tbl ! b')"
      "next_fl ?ns (?tbl ! b' ! i') = Inr (Node a)" by blast+
    from char[OF t'] have 1: "b' = ?f k" "(?tbl ! b' ! i', k) \<in> set (anchored Before_begin ?ns)"
      by blast+
    from char[OF bl i(1,2)] have 2: "(?tbl ! ?f k ! i, k) \<in> set (anchored Before_begin ?ns)" by simp
    have "?tbl ! ?f k ! i' = ?tbl ! ?f k ! i"
      using anchored_anchor_unique[OF _ 1(2)[unfolded 1(1)] 2] c by (simp add: chain_ok_def)
    moreover have "distinct (?tbl ! ?f k)" by (rule bucket_distinct[OF c t bl])
    moreover have "i' < length (?tbl ! ?f k)" using that 1(1) by simp
    ultimately have "i' = i" using i(1) by (simp add: nth_eq_iff_index_eq)
    with 1(1) show ?thesis by simp
  qed
  have front: "?tbl ! ?f k ! i = Before_begin" if "begin_map m = Node a"
  proof -
    from that obtain e r where r: "?ns = (a, e) # r"
      by (cases ?ns) (auto simp: begin_map_def begin_fl_def)
    with el da have "e = (k, x)" by (metis eq_key_imp_eq_value list.set_intros(1))
    then have "(Before_begin, k) \<in> set (anchored Before_begin ?ns)" using r by simp
    moreover from char[OF bl i(1,2)] have "(?tbl ! ?f k ! i, k) \<in> set (anchored Before_begin ?ns)"
      by simp
    ultimately show ?thesis
      using anchored_anchor_unique[of ?ns "?tbl ! ?f k ! i" k Before_begin Before_begin] c
      by (simp add: chain_ok_def)
  qed
  show ?thesis using bl i uniq front by blast
qed


lemma mod_double_low: "x mod (2 * B) < B \<Longrightarrow> x mod (2 * B) = x mod (B::nat)"
proof -
  assume l: "x mod (2 * B) < B"
  have "x mod B = (x mod (2 * B)) mod B" by (simp add: mod_mod_cancel)
  also have "\<dots> = x mod (2 * B)" using l by simp
  finally show ?thesis by simp
qed

lemma mod_double_cases: "0 < B \<Longrightarrow> x mod (2 * B) = x mod B \<or> x mod (2 * B) = x mod B + (B::nat)"
proof -
  assume B: "0 < B"
  show ?thesis
  proof (cases "x mod (2 * B) < B")
    case True
    then show ?thesis by (simp add: mod_double_low)
  next
    case False
    have lt: "x mod (2 * B) < 2 * B" using B by simp
    have "x mod B = (x mod (2 * B)) mod B" by (simp add: mod_mod_cancel)
    also have "\<dots> = (x mod (2 * B) - B) mod B" using False by (simp add: le_mod_geq)
    also have "\<dots> = x mod (2 * B) - B" using lt False by simp
    finally show ?thesis using False by simp
  qed
qed

lemma erase_nth_filter:
  assumes "distinct xs" and "j < length xs"
  shows "take j xs @ drop (Suc j) xs = filter (\<lambda>q. q \<noteq> xs ! j) xs"
proof -
  have s: "xs = take j xs @ xs ! j # drop (Suc j) xs" using assms(2) by (rule id_take_nth_drop)
  then have d: "distinct (take j xs @ xs ! j # drop (Suc j) xs)" using assms(1) by simp
  have 1: "filter (\<lambda>q. q \<noteq> xs ! j) (take j xs) = take j xs"
    using d by (auto simp: filter_id_conv)
  have 2: "filter (\<lambda>q. q \<noteq> xs ! j) (drop (Suc j) xs) = drop (Suc j) xs"
    using d by (auto simp: filter_id_conv)
  have "filter (\<lambda>q. q \<noteq> xs ! j) xs =
        filter (\<lambda>q. q \<noteq> xs ! j) (take j xs @ xs ! j # drop (Suc j) xs)" using s by simp
  also have "\<dots> = take j xs @ drop (Suc j) xs" using 1 2 by simp
  finally show ?thesis by simp
qed

lemma ReHash_step_low:
  assumes c: "chain_ok ns" and t: "table_ok g ns tbl" and s: "ns = xs @ (a, (k, v)) # ys"
    and g: "g k = hf k mod B" and B: "0 < B" and len: "length tbl = 2 * B"
    and r: "ReHash_step hf ns B k tbl = Inr tbl'" and b: "b < B"
  shows "tbl' ! b = (if hf k mod B = hf k mod (2 * B) then tbl ! b
                     else filter (\<lambda>q. q \<noteq> pos_before Before_begin xs) (tbl ! b))"
proof (cases "hf k mod B = hf k mod (2 * B)")
  case True
  then have "ReHash_step hf ns B k tbl = Inr tbl" using B len by (auto simp: ReHash_step_def)
  with r True show ?thesis by simp
next
  case False
  let ?prev = "hf k mod B" and ?new = "hf k mod (2 * B)"
  let ?p = "pos_before Before_begin xs"
  have pk: "(?p, k) \<in> set (anchored Before_begin ns)" unfolding s by (rule anchored_mid)
  from Find_Previous_present[OF c t pk] g obtain j where
    j: "Find_Previous_In_Bucket ?prev k ns tbl = Inr j" "j < length (tbl ! ?prev)"
       "tbl ! ?prev ! j = ?p" by auto
  have "?prev < B" using B by simp
  then have pl: "?prev < length tbl" using len by linarith
  have bl: "b < length tbl" using b len by linarith
  have nl: "?new < length tbl" using B len by simp
  have nb: "\<not> ?new < B" using mod_double_low[of "hf k" B] False by auto
  then have bn: "b \<noteq> ?new" using b by auto
  let ?tbl1 = "tbl[?new := ?p # tbl ! ?new]"
  let ?tbl' = "?tbl1[?prev := take j (tbl ! ?prev) @ drop (Suc j) (tbl ! ?prev)]"
  have t1p: "?tbl1 ! ?prev = tbl ! ?prev" using False by simp
  have "ReHash_step hf ns B k tbl = Inr ?tbl'"
    using False j B len t1p by (auto simp: ReHash_step_def Let_def)
  with r have tbl': "tbl' = ?tbl'" by simp
  show ?thesis
  proof (cases "b = ?prev")
    case True
    have "tbl' ! b = take j (tbl ! ?prev) @ drop (Suc j) (tbl ! ?prev)"
      unfolding tbl' using True pl by simp
    also have "\<dots> = filter (\<lambda>q. q \<noteq> tbl ! ?prev ! j) (tbl ! ?prev)"
      by (rule erase_nth_filter[OF bucket_distinct[OF c t pl] j(2)])
    finally show ?thesis using False True j(3) by simp
  next
    case nprev: False
    have same: "tbl' ! b = tbl ! b" unfolding tbl' using nprev bn by simp
    have "?p \<notin> set (tbl ! b)"
    proof
      assume "?p \<in> set (tbl ! b)"
      with in_bucket[OF t bl] obtain k' where k': "(?p, k') \<in> set (anchored Before_begin ns)" "g k' = b"
        by blast
      have "k' = k" using anchored_key_unique[OF _ k'(1) pk] c by (simp add: chain_ok_def)
      with k'(2) g nprev show False by simp
    qed
    then have "filter (\<lambda>q. q \<noteq> ?p) (tbl ! b) = tbl ! b" by (auto simp: filter_id_conv)
    then show ?thesis using same False by simp
  qed
qed

lemma moving_Nil [simp]: "moving hf B ns [] = []"
  by (simp add: moving_def)

lemma in_moving:
  "q \<in> set (moving hf B ns rest) \<longleftrightarrow>
   (\<exists>k. (q, k) \<in> set (anchored Before_begin ns) \<and> k \<in> set (map (fst \<circ> snd) rest) \<and>
        hf k mod B \<noteq> hf k mod (2 * B))"
  by (force simp: moving_def)

lemma ReHash_loop_low:
  assumes c: "chain_ok ns" and B: "0 < B"
  shows "ns = done @ rest \<Longrightarrow> length tbl = 2 * B \<Longrightarrow> table_ok (rehash_fn hf B done) ns tbl \<Longrightarrow>
         ReHash_loop hf ns B rest tbl = Inr tbl' \<Longrightarrow> b < B \<Longrightarrow>
         tbl' ! b = filter (\<lambda>q. q \<notin> set (moving hf B ns rest)) (tbl ! b)"
proof (induction rest arbitrary: "done" tbl)
  case Nil
  then show ?case by simp
next
  case (Cons x rest)
  obtain a k v where x: "x = (a, (k, v))" by (cases x) auto
  have s: "ns = done @ (a, (k, v)) # rest" using Cons.prems(1) x by simp
  then have el: "(a, (k, v)) \<in> set ns" by simp
  have "distinct (map (fst \<circ> snd) (done @ x # rest))" using c Cons.prems(1) by (simp add: chain_ok_def)
  then have kd: "k \<notin> set (map (fst \<circ> snd) done)" using x by auto
  then have g: "rehash_fn hf B done k = hf k mod B" by (simp add: rehash_fn_def)
  from ReHash_step_ok[where g = "rehash_fn hf B done" and hf = hf, OF c Cons.prems(3) el g B Cons.prems(2)]
  obtain tbl1 where
    t1: "ReHash_step hf ns B k tbl = Inr tbl1" "length tbl1 = length tbl"
        "table_ok ((rehash_fn hf B done)(k := hf k mod length tbl)) ns tbl1" by blast
  have "(rehash_fn hf B done)(k := hf k mod length tbl) = rehash_fn hf B (done @ [x])"
    using Cons.prems(2) x by (auto simp: rehash_fn_def fun_eq_iff)
  with t1 have t1': "table_ok (rehash_fn hf B (done @ [x])) ns tbl1" by simp
  have s1: "ns = (done @ [x]) @ rest" using Cons.prems(1) by simp
  have l1: "length tbl1 = 2 * B" using t1(2) Cons.prems(2) by simp
  have loop: "ReHash_loop hf ns B rest tbl1 = Inr tbl'" using Cons.prems(4) t1(1) x by simp
  from Cons.IH[OF s1 l1 t1' loop Cons.prems(5)]
  have ih: "tbl' ! b = filter (\<lambda>q. q \<notin> set (moving hf B ns rest)) (tbl1 ! b)" .
  let ?p = "pos_before Before_begin done"
  from ReHash_step_low[OF c Cons.prems(3) s g B Cons.prems(2) t1(1) Cons.prems(5)]
  have st: "tbl1 ! b = (if hf k mod B = hf k mod (2 * B) then tbl ! b
                     else filter (\<lambda>q. q \<noteq> ?p) (tbl ! b))" .
  have pk: "(?p, k) \<in> set (anchored Before_begin ns)" unfolding s by (rule anchored_mid)
  have mv: "q \<notin> set (moving hf B ns (x # rest)) \<longleftrightarrow>
            q \<notin> set (moving hf B ns rest) \<and> \<not> (hf k mod B \<noteq> hf k mod (2 * B) \<and> q = ?p)" for q
  proof -
    have "(q, k) \<in> set (anchored Before_begin ns) \<longleftrightarrow> q = ?p"
      using anchored_anchor_unique[of ns q k Before_begin ?p] c pk by (auto simp: chain_ok_def)
    then show ?thesis unfolding in_moving using x by auto
  qed
  show ?case unfolding ih st mv by (auto intro: filter_cong)
qed

lemma anchor_bucket_anchored:
  assumes "distinct (map fst ns)" and "(q, k) \<in> set (anchored Before_begin ns)"
  shows "anchor_bucket hf n ns q = Some (hf k mod n)"
  using key_after_anchored[OF assms] by (simp add: anchor_bucket_def)

lemma ReHash_loop_of:
  assumes "ReHash m = Inr (m\<lparr>table_f := tbl'\<rparr>)"
  shows "ReHash_loop (hash_f m) (elements_f m) (length (table_f m)) (elements_f m)
           (table_f m @ replicate (length (table_f m)) []) = Inr tbl'"
proof -
  from assms obtain t where
    t: "ReHash_loop (hash_f m) (elements_f m) (length (table_f m)) (elements_f m)
           (table_f m @ replicate (length (table_f m)) []) = Inr t"
       "m\<lparr>table_f := t\<rparr> = m\<lparr>table_f := tbl'\<rparr>"
    by (auto simp: ReHash_def Let_def and_then_eq_Inr)
  from t(2) have "table_f (m\<lparr>table_f := t\<rparr>) = table_f (m\<lparr>table_f := tbl'\<rparr>)" by simp
  then have "t = tbl'" by simp
  with t(1) show ?thesis by simp
qed

lemma at_key_ill_formed: "at_key k m = Inl Ill_formed"
  by (simp add: at_key_def)

lemma insert_map_grows:
  assumes v: "valid m" and i: "insert_map p m = Inr m'"
  shows "length (table_f m) \<le> length (table_f m')"
proof (cases "fst p \<in> fst ` set (traverse m)")
  case True
  with find_map_total[OF v, of "fst p"] obtain a where "find_map (fst p) m = Inr (Node a)" by blast
  then have "insert_map (fst p, snd p) m = Inr m" by (rule insert_map_present) simp
  with i show ?thesis by simp
next
  case False
  from insert_map_absent[OF v False, of "snd p"] i have
    "length (table_f m') = (if length (table_f m) < Suc (size_f m)
       then 2 * length (table_f m) else length (table_f m))" by auto
  then show ?thesis by (simp split: if_splits)
qed

lemma insert_range_grows:
  "valid m \<Longrightarrow> insert_range ps m = Inr m' \<Longrightarrow> length (table_f m) \<le> length (table_f m')"
proof (induction ps arbitrary: m)
  case Nil
  then show ?case by simp
next
  case (Cons p ps)
  from insert_map_valid[OF Cons.prems(1), of p] obtain m1 where
    m1: "insert_map p m = Inr m1" "valid m1" by blast
  with Cons.prems(2) have r: "insert_range ps m1 = Inr m'" by simp
  from insert_map_grows[OF Cons.prems(1) m1(1)] Cons.IH[OF m1(2) r] show ?case by linarith
qed

lemma ReHash_example:
  "ReHash example_map = Inr (example_map\<lparr>table_f := [[], [Node 1], [Before_begin], []]\<rparr>)"
  by (simp add: ReHash_def ReHash_step_def Find_Previous_In_Bucket_def example_map_def
      begin_fl_def Let_def numeral_2_eq_2)

section \<open>The claims\<close>


text \<open>
  Claim C10. Self-assignment \<^verbatim>\<open>m = m\<close> leaves the map as it is: for an object that
  exists, the operator returns at \<^verbatim>\<open>if (this == &other) return *this;\<close> and the store
  of objects, and with it the size, the entries and the table of the map, is the one from
  before the call; the clear-and-reinsert loop does not run.
\<close>

theorem self_assignment_unchanged:
  assumes "s this = Some m"
  shows "operator_assign this this s = Inr s"
  using assms by (simp add: operator_assign_def)

theorem self_assignment_unchanged_witness:
  "(Map.empty(0 \<mapsto> example_map)) (0::nat) = Some example_map \<and>
   operator_assign 0 0 (Map.empty(0 \<mapsto> example_map)) = Inr (Map.empty(0 \<mapsto> example_map))"
proof -
  have h: "(Map.empty(0 \<mapsto> example_map)) (0::nat) = Some example_map" by simp
  from h self_assignment_unchanged[of "Map.empty(0 \<mapsto> example_map)" 0 example_map, OF h]
  show ?thesis by (rule conjI)
qed

text \<open>
  Claim C3. In a valid map, \<^verbatim>\<open>insert((k, v))\<close> with a key that is present (one on which
  \<^verbatim>\<open>find\<close> does not return \<^verbatim>\<open>end()\<close>) returns the state it was given: size, stored
  values, chain and table are unchanged. So of two inserts with the same key the second one is
  never more than a no-op, and the element that \<^verbatim>\<open>find(k)\<close> returns after them holds the
  value that the key had after the first: \<open>v1\<close> when the first insert is the one that
  brought the key into the map (the scenario
  \<^verbatim>\<open>m.insert({k,1}); m.insert({k,2}); m.at(k) == 1\<close>), and the value that was stored before
  when the key was in the map already. The body of \<^verbatim>\<open>at\<close> computes that value too; the
  call \<^verbatim>\<open>m.at(k)\<close> of the claim, however, is ill-formed.
\<close>

theorem insert_existing_key_noop:
  assumes "valid m"
  shows "(\<forall>it. find_map k m = Inr it \<and> it \<noteq> End \<longrightarrow> insert_map (k, v) m = Inr m) \<and>
         (k \<in> fst ` set (traverse m) \<longrightarrow>
            find_map k m \<noteq> Inr End \<and> insert_map (k, v) m = Inr m) \<and>
         (\<exists>m1 w it. insert_map (k, v1) m = Inr m1 \<and> insert_map (k, v2) m1 = Inr m1 \<and>
            find_map k m1 = Inr it \<and> it \<noteq> End \<and> deref (elements_f m1) it = Inr (k, w) \<and>
            at_body k m1 = Inr w \<and> at_key k m1 = Inl Ill_formed \<and>
            (k \<notin> fst ` set (traverse m) \<longrightarrow> w = v1) \<and>
            (\<forall>x. (k, x) \<in> set (traverse m) \<longrightarrow> w = x))"
proof (intro conjI)
  show "\<forall>it. find_map k m = Inr it \<and> it \<noteq> End \<longrightarrow> insert_map (k, v) m = Inr m"
  proof (intro allI impI)
    fix it assume "find_map k m = Inr it \<and> it \<noteq> End"
    then show "insert_map (k, v) m = Inr m" by (simp add: insert_map_present)
  qed
  have pres: "find_map k m \<noteq> Inr End \<and> insert_map (k, u) m = Inr m"
    if "k \<in> fst ` set (traverse m)" for u
  proof -
    from find_map_total[OF assms, of k] that obtain a where a: "find_map k m = Inr (Node a)"
      by blast
    then have "insert_map (k, u) m = Inr m" by (rule insert_map_present) simp
    with a show ?thesis by simp
  qed
  then show "k \<in> fst ` set (traverse m) \<longrightarrow>
            find_map k m \<noteq> Inr End \<and> insert_map (k, v) m = Inr m" by blast
  show "\<exists>m1 w it. insert_map (k, v1) m = Inr m1 \<and> insert_map (k, v2) m1 = Inr m1 \<and>
            find_map k m1 = Inr it \<and> it \<noteq> End \<and> deref (elements_f m1) it = Inr (k, w) \<and>
            at_body k m1 = Inr w \<and> at_key k m1 = Inl Ill_formed \<and>
            (k \<notin> fst ` set (traverse m) \<longrightarrow> w = v1) \<and>
            (\<forall>x. (k, x) \<in> set (traverse m) \<longrightarrow> w = x)"
  proof (cases "k \<in> fst ` set (traverse m)")
    case True
    then obtain a x where el: "(a, (k, x)) \<in> set (elements_f m)" by (rule key_present_node)
    then have x: "(k, x) \<in> set (traverse m)" by (force simp: traverse_def)
    have d: "distinct (map fst (traverse m))"
      using assms by (simp add: valid_def chain_ok_def traverse_def)
    have u: "\<forall>y. (k, y) \<in> set (traverse m) \<longrightarrow> x = y"
      using d x by (meson eq_key_imp_eq_value)
    from find_map_present[OF assms el]
    have "find_map k m = Inr (Node a)" "at_body k m = Inr x"
      "deref (elements_f m) (Node a) = Inr (k, x)" by simp_all
    then show ?thesis using pres[OF True] u True
      by (intro exI[of _ m] exI[of _ x] exI[of _ "Node a"]) (simp add: at_key_ill_formed)
  next
    case False
    let ?a = "fresh_addr (elements_f m)"
    from insert_map_absent[OF assms False, of v1] obtain m1 where
      m1: "insert_map (k, v1) m = Inr m1" "valid m1"
          "elements_f m1 = (?a, (k, v1)) # elements_f m" by blast
    have el: "(?a, (k, v1)) \<in> set (elements_f m1)" using m1(3) by simp
    from find_map_present[OF m1(2) el]
    have f: "find_map k m1 = Inr (Node ?a)" "at_body k m1 = Inr v1"
      "deref (elements_f m1) (Node ?a) = Inr (k, v1)" by simp_all
    from f(1) have "insert_map (k, v2) m1 = Inr m1" by (rule insert_map_present) simp
    moreover have "\<forall>x. (k, x) \<in> set (traverse m) \<longrightarrow> v1 = x" using False by force
    ultimately show ?thesis using m1(1) f
      by (intro exI[of _ m1] exI[of _ v1] exI[of _ "Node ?a"]) (simp add: at_key_ill_formed)
  qed
qed

theorem insert_existing_key_noop_witness:
  "valid example_map \<and> insert_map (1, 99) example_map = Inr example_map \<and>
   (\<exists>m1 it. insert_map (5, 7) example_map = Inr m1 \<and> insert_map (5, 8) m1 = Inr m1 \<and>
      find_map 5 m1 = Inr it \<and> it \<noteq> End \<and> deref (elements_f m1) it = Inr (5, 7) \<and>
      at_body 5 m1 = Inr 7 \<and> at_key 5 m1 = Inl Ill_formed)"
proof -
  have "insert_map (1, 99) example_map = Inr example_map"
    using insert_existing_key_noop[OF valid_example, of 1 99 7 8]
    by (simp add: traverse_example)
  moreover have "\<exists>m1 it. insert_map (5, 7) example_map = Inr m1 \<and> insert_map (5, 8) m1 = Inr m1 \<and>
      find_map 5 m1 = Inr it \<and> it \<noteq> End \<and> deref (elements_f m1) it = Inr (5, 7) \<and>
      at_body 5 m1 = Inr 7 \<and> at_key 5 m1 = Inl Ill_formed"
    using insert_existing_key_noop[OF valid_example, of 5 99 7 8]
    by (simp add: traverse_example)
  ultimately show ?thesis using valid_example by simp
qed

text \<open>
  Claim C8. \<^verbatim>\<open>clear()\<close> on a valid map returns a map of size 0 that is empty, on which
  \<^verbatim>\<open>find\<close> returns \<^verbatim>\<open>end()\<close> for every key, whose bucket lists are all empty and whose
  bucket count is the one from before the call.
\<close>

theorem clear_empties_map:
  assumes "valid m"
  shows "\<exists>m'. clear m = Inr m' \<and> size_map m' = 0 \<and> empty_map m' \<and>
           (\<forall>k. find_map k m' = Inr (end_map m')) \<and>
           (\<forall>b < length (table_f m'). table_f m' ! b = []) \<and>
           length (table_f m') = length (table_f m)"
proof -
  from clear_valid'[OF assms] obtain m' where
    m': "clear m = Inr m'" "valid m'" "elements_f m' = []" "size_f m' = 0"
        "table_f m' = replicate (length (table_f m)) []" by blast
  have "find_map k m' = Inr End" for k
    by (rule find_map_absent(1)[OF m'(2)]) (simp add: traverse_def m'(3))
  then show ?thesis using m' by (simp add: size_map_def empty_map_def end_map_def)
qed

theorem clear_empties_map_witness:
  "valid example_map \<and>
   (\<exists>m'. clear example_map = Inr m' \<and> size_map m' = 0 \<and> empty_map m' \<and>
           (\<forall>k. find_map k m' = Inr (end_map m')) \<and>
           (\<forall>b < length (table_f m'). table_f m' ! b = []) \<and>
           length (table_f m') = length (table_f example_map))"
  using valid_example clear_empties_map[OF valid_example] by (rule conjI)

text \<open>
  Claim C5. A call of \<^verbatim>\<open>at\<close> is ill-formed, for every key and every map: \<^verbatim>\<open>at\<close> is a
  \<^verbatim>\<open>const\<close> member whose body calls \<^verbatim>\<open>Find_Previous_In_Bucket\<close>, which is not. What
  the claim says of \<^verbatim>\<open>at\<close> is what the statements of its body compute on a valid map:
  \<^verbatim>\<open>std::out_of_range\<close> for a key that is absent, the stored value for a key that is
  present, and no new state. \<^verbatim>\<open>operator[](k)\<close> with an absent key does what the claim
  says: it links in a new first node that holds \<open>(k, ValueType())\<close>, returns the reference
  to that node's value, makes the size one larger and keeps the entries that were there, and
  \<^verbatim>\<open>find(k)\<close> then returns that node.
\<close>

theorem at_and_index_on_missing_key:
  assumes "valid m"
  shows "at_key k m = Inl Ill_formed \<and>
         (k \<notin> fst ` set (traverse m) \<longrightarrow>
            at_body k m = Inl Out_of_range \<and>
            (\<exists>r m'. operator_index dflt k m = Inr (r, m') \<and> valid m' \<and>
               deref (elements_f m') r = Inr (k, dflt) \<and> r = begin_map m' \<and>
               traverse m' = (k, dflt) # traverse m \<and>
               size_map m' = size_map m + 1 \<and>
               find_map k m' = Inr r \<and> r \<noteq> end_map m' \<and> at_body k m' = Inr dflt)) \<and>
         (\<forall>x. (k, x) \<in> set (traverse m) \<longrightarrow> at_body k m = Inr x)"
proof (intro conjI impI allI)
  show "at_key k m = Inl Ill_formed" by (rule at_key_ill_formed)
next
  assume no: "k \<notin> fst ` set (traverse m)"
  show "at_body k m = Inl Out_of_range" by (rule find_map_absent(2)[OF assms no])
  let ?a = "fresh_addr (elements_f m)"
  from operator_index_absent[OF assms no, of dflt] obtain m' where
    m': "insert_map (k, dflt) m = Inr m'" "operator_index dflt k m = Inr (Node ?a, m')"
        "deref (elements_f m') (Node ?a) = Inr (k, dflt)" by blast
  from insert_map_absent[OF assms no, of dflt] m'(1) have
    i: "valid m'" "elements_f m' = (?a, (k, dflt)) # elements_f m" "size_f m' = Suc (size_f m)"
    by auto
  have el: "(?a, (k, dflt)) \<in> set (elements_f m')" using i(2) by simp
  have "find_map k m' = Inr (Node ?a)" "at_body k m' = Inr dflt"
    using find_map_present(1,2)[OF i(1) el] by simp_all
  moreover have "Node ?a = begin_map m'" using i(2) by (simp add: begin_map_def begin_fl_def)
  moreover have "traverse m' = (k, dflt) # traverse m" using i(2) by (simp add: traverse_def)
  ultimately show "\<exists>r m'. operator_index dflt k m = Inr (r, m') \<and> valid m' \<and>
               deref (elements_f m') r = Inr (k, dflt) \<and> r = begin_map m' \<and>
               traverse m' = (k, dflt) # traverse m \<and>
               size_map m' = size_map m + 1 \<and>
               find_map k m' = Inr r \<and> r \<noteq> end_map m' \<and> at_body k m' = Inr dflt"
    using m'(2,3) i(1,3) by (auto simp: size_map_def end_map_def)
next
  fix x assume "(k, x) \<in> set (traverse m)"
  then show "at_body k m = Inr x" by (rule at_body_traverse[OF assms])
qed

theorem at_and_index_on_missing_key_witness:
  "valid example_map \<and> at_key 5 example_map = Inl Ill_formed \<and>
   at_key 1 example_map = Inl Ill_formed \<and>
   at_body 5 example_map = Inl Out_of_range \<and>
   (\<exists>r m'. operator_index 0 5 example_map = Inr (r, m') \<and> valid m' \<and>
      deref (elements_f m') r = Inr (5, 0) \<and> r = begin_map m' \<and>
      traverse m' = (5, 0) # traverse example_map \<and>
      size_map m' = size_map example_map + 1 \<and>
      find_map 5 m' = Inr r \<and> r \<noteq> end_map m' \<and> at_body 5 m' = Inr 0) \<and>
   at_body 1 example_map = Inr 10"
proof -
  have "at_key 5 example_map = Inl Ill_formed \<and> at_body 5 example_map = Inl Out_of_range \<and>
   (\<exists>r m'. operator_index 0 5 example_map = Inr (r, m') \<and> valid m' \<and>
      deref (elements_f m') r = Inr (5, 0) \<and> r = begin_map m' \<and>
      traverse m' = (5, 0) # traverse example_map \<and>
      size_map m' = size_map example_map + 1 \<and>
      find_map 5 m' = Inr r \<and> r \<noteq> end_map m' \<and> at_body 5 m' = Inr 0)"
    using at_and_index_on_missing_key[OF valid_example, of 5 0]
    by (simp add: traverse_example)
  moreover have "at_key 1 example_map = Inl Ill_formed \<and> at_body 1 example_map = Inr 10"
    using at_and_index_on_missing_key[OF valid_example, of 1 0]
    by (simp add: traverse_example)
  ultimately show ?thesis using valid_example by simp
qed

text \<open>
  Claim C4. \<^verbatim>\<open>erase(k)\<close> on a valid map returns a valid map on which \<^verbatim>\<open>find(k)\<close>
  returns \<^verbatim>\<open>end()\<close>. If \<open>k\<close> was present, the size is smaller by exactly 1, the
  traversal is the old one without the pair of \<open>k\<close>, and \<^verbatim>\<open>find\<close> and the body
  of \<^verbatim>\<open>at\<close> return for every other key what they returned before (\<^verbatim>\<open>find\<close> the
  same node). If
  \<open>k\<close> was absent, the state returned is the state given.
\<close>

theorem erase_removes_key:
  assumes "valid m"
  shows "\<exists>m'. erase k m = Inr m' \<and> valid m' \<and> find_map k m' = Inr (end_map m') \<and>
           (k \<in> fst ` set (traverse m) \<longrightarrow>
              size_map m' + 1 = size_map m \<and>
              traverse m' = filter (\<lambda>p. fst p \<noteq> k) (traverse m) \<and>
              (\<forall>k'. k' \<noteq> k \<longrightarrow> find_map k' m' = find_map k' m \<and> at_body k' m' = at_body k' m)) \<and>
           (k \<notin> fst ` set (traverse m) \<longrightarrow> m' = m)"
proof (cases "k \<in> fst ` set (traverse m)")
  case False
  have "erase k m = Inr m" by (rule erase_absent[OF assms False])
  moreover have "find_map k m = Inr End" by (rule find_map_absent(1)[OF assms False])
  ultimately show ?thesis using assms False by (simp add: end_map_def)
next
  case True
  then obtain a x where "(a, (k, x)) \<in> set (elements_f m)" by (rule key_present_node)
  from split_list[OF this] obtain xs ys where s: "elements_f m = xs @ (a, (k, x)) # ys" by blast
  from erase_present[OF assms s] obtain m' where
    m': "erase k m = Inr m'" "valid m'" "elements_f m' = xs @ ys" "size_f m' = size_f m - 1"
    by blast
  have dk: "distinct (map (fst \<circ> snd) (xs @ (a, (k, x)) # ys))"
    using assms s by (simp add: valid_def chain_ok_def)
  have sz: "size_f m = length (elements_f m)" using assms by (simp add: valid_def)
  have 1: "size_map m' + 1 = size_map m" using m'(4) sz s by (simp add: size_map_def)
  have "k \<notin> set (map (fst \<circ> snd) (xs @ ys))" using dk by auto
  then have nk: "k \<notin> fst ` set (traverse m')"
    unfolding traverse_keys m'(3) .
  have 2: "find_map k m' = Inr (end_map m')"
    using find_map_absent(1)[OF m'(2) nk] by (simp add: end_map_def)
  have "distinct (map fst (map snd xs @ (k, x) # map snd ys))" using dk by simp
  from filter_key_mid[OF this]
  have 3: "traverse m' = filter (\<lambda>p. fst p \<noteq> k) (traverse m)"
    by (simp add: traverse_def s m'(3))
  have 4: "find_map k' m' = find_map k' m \<and> at_body k' m' = at_body k' m" if "k' \<noteq> k" for k'
  proof (rule lookup_same_nodes[OF assms m'(2)])
    fix a' x' assume "(a', (k', x')) \<in> set (elements_f m)"
    then show "(a', (k', x')) \<in> set (elements_f m')" using that s m'(3) by auto
  next
    assume "k' \<notin> fst ` set (traverse m)"
    then show "k' \<notin> fst ` set (traverse m')" by (auto simp: traverse_def s m'(3))
  qed
  show ?thesis using m'(1,2) 1 2 3 4 True by blast
qed

theorem erase_removes_key_witness:
  "valid example_map \<and>
   (\<exists>m'. erase 1 example_map = Inr m' \<and> valid m' \<and> find_map 1 m' = Inr (end_map m') \<and>
      size_map m' + 1 = size_map example_map \<and> traverse m' = [(2, 20)] \<and>
      at_body 2 m' = at_body 2 example_map) \<and>
   erase 5 example_map = Inr example_map"
proof -
  have "\<exists>m'. erase 1 example_map = Inr m' \<and> valid m' \<and> find_map 1 m' = Inr (end_map m') \<and>
      size_map m' + 1 = size_map example_map \<and> traverse m' = [(2, 20)] \<and>
      at_body 2 m' = at_body 2 example_map"
    using erase_removes_key[OF valid_example, of 1] by (auto simp: traverse_example)
  moreover have "erase 5 example_map = Inr example_map"
    using erase_removes_key[OF valid_example, of 5] by (auto simp: traverse_example)
  ultimately show ?thesis using valid_example by simp
qed

text \<open>
  Claim C7. Inserting, one after the other, \<open>N\<close> pairs with pairwise different keys into
  an empty valid map (a new one, or one that was cleared) succeeds and gives a map of size
  \<open>N\<close> on which \<^verbatim>\<open>find\<close> returns, for every inserted pair, a node that holds that
  pair, and whose traversal from \<^verbatim>\<open>begin()\<close> to \<^verbatim>\<open>end()\<close> is the list of the inserted
  pairs in reverse order of insertion, each once.
\<close>

theorem distinct_inserts_roundtrip:
  assumes "valid m" and "empty_map m" and "distinct (map fst ps)"
  shows "\<exists>m'. insert_range ps m = Inr m' \<and> size_map m' = length ps \<and>
           (\<forall>p \<in> set ps. \<exists>it. find_map (fst p) m' = Inr it \<and> it \<noteq> end_map m' \<and>
                              deref (elements_f m') it = Inr p) \<and>
           traverse m' = rev ps"
proof -
  have e: "traverse m = []" "size_f m = 0"
    using assms(1,2) by (simp_all add: empty_map_def traverse_def valid_def)
  then have "fst ` set ps \<inter> fst ` set (traverse m) = {}" by simp
  from insert_range_fresh[OF assms(1,3) this] obtain m' where
    m': "insert_range ps m = Inr m'" "valid m'" "traverse m' = rev ps @ traverse m"
        "size_f m' = size_f m + length ps" by blast
  have "\<exists>it. find_map (fst p) m' = Inr it \<and> it \<noteq> end_map m' \<and> deref (elements_f m') it = Inr p"
    if "p \<in> set ps" for p
  proof -
    from that have "p \<in> set (traverse m')" using m'(3) by simp
    then obtain a where "(a, (fst p, snd p)) \<in> set (elements_f m')" by (auto simp: traverse_def)
    from find_map_present(1,3)[OF m'(2) this] show ?thesis by (auto simp: end_map_def)
  qed
  then show ?thesis using m' e by (auto simp: size_map_def)
qed

theorem distinct_inserts_roundtrip_witness:
  "valid (UnorderedMap_init (\<lambda>k. k) :: (nat, nat) UnorderedMap) \<and>
   empty_map (UnorderedMap_init (\<lambda>k. k) :: (nat, nat) UnorderedMap) \<and>
   distinct (map fst [(1::nat, 10::nat), (2, 20), (3, 30)]) \<and>
   (\<exists>m'. insert_range [(1::nat, 10::nat), (2, 20), (3, 30)] (UnorderedMap_init (\<lambda>k. k)) = Inr m' \<and>
      size_map m' = 3 \<and> traverse m' = [(3, 30), (2, 20), (1, 10)] \<and>
      (\<exists>it. find_map 2 m' = Inr it \<and> it \<noteq> end_map m' \<and> deref (elements_f m') it = Inr (2, 20)))"
proof -
  let ?m = "UnorderedMap_init (\<lambda>k. k) :: (nat, nat) UnorderedMap"
  let ?ps = "[(1::nat, 10::nat), (2, 20), (3, 30)]"
  have e: "empty_map ?m" by (simp add: empty_map_def UnorderedMap_init_def)
  have d: "distinct (map fst ?ps)" by simp
  from distinct_inserts_roundtrip[OF valid_init e d] obtain m' where
    m': "insert_range ?ps ?m = Inr m'" "size_map m' = length ?ps"
        "\<forall>p \<in> set ?ps. \<exists>it. find_map (fst p) m' = Inr it \<and> it \<noteq> end_map m' \<and>
                              deref (elements_f m') it = Inr p"
        "traverse m' = rev ?ps" by blast
  have "(2, 20) \<in> set ?ps" by simp
  from bspec[OF m'(3) this]
  have "\<exists>it. find_map 2 m' = Inr it \<and> it \<noteq> end_map m' \<and> deref (elements_f m') it = Inr (2, 20)"
    by simp
  moreover have "size_map m' = 3" "traverse m' = [(3, 30), (2, 20), (1, 10)]"
    using m'(2,4) by simp_all
  ultimately have "\<exists>m'. insert_range ?ps ?m = Inr m' \<and>
      size_map m' = 3 \<and> traverse m' = [(3, 30), (2, 20), (1, 10)] \<and>
      (\<exists>it. find_map 2 m' = Inr it \<and> it \<noteq> end_map m' \<and> deref (elements_f m') it = Inr (2, 20))"
    using m'(1) by blast
  then show ?thesis using valid_init[of "\<lambda>k::nat. k"] e d by blast
qed

text \<open>
  Claim C6, as stated, fails where it says that no operation but \<^verbatim>\<open>insert\<close> changes the
  bucket count and that the count doubles exactly when an insert pushes the load factor above
  \<^verbatim>\<open>maxLoadFactor_\<close>: \<^verbatim>\<open>ReHash\<close> is a public member, and called on the reachable map
  of two elements in two buckets, whose load factor is not exceeded, it leaves four buckets.
\<close>

theorem bucket_count_changed_by_ReHash:
  "reachable (Map.empty((0::nat) \<mapsto> example_map)) \<and>
   length (table_f example_map) = 2 \<and> size_f example_map = 2 \<and>
   \<not> load_exceeded (size_f example_map) (length (table_f example_map)) \<and>
   ReHash example_map = Inr (example_map\<lparr>table_f := [[], [Node 1], [Before_begin], []]\<rparr>) \<and>
   length (table_f (example_map\<lparr>table_f := [[], [Node 1], [Before_begin], []]\<rparr>)) = 4"
  using reachable_example ReHash_example
  by (simp add: example_map_def load_exceeded_def maxLoadFactor_def)

text \<open>
  Claim C6, amended. A new map has exactly one bucket. In every reachable state the bucket
  count is at least 1 and \<^verbatim>\<open>size_ / table_.size()\<close> is at most \<^verbatim>\<open>maxLoadFactor_\<close>,
  also after every \<^verbatim>\<open>insert\<close> made there. An \<^verbatim>\<open>insert\<close> doubles the bucket count
  exactly when it links in a new element and the incremented size over the bucket count
  exceeds \<^verbatim>\<open>maxLoadFactor_\<close>; otherwise it keeps the bucket count. The bucket count
  changes in \<^verbatim>\<open>ReHash\<close> only, which doubles it: inside such an insert, also one of the
  inserts that \<^verbatim>\<open>operator[]\<close> and the copy assignment make (the assignment clears the
  destination, which keeps the count, and inserts the pairs of the source, which can only
  grow it), and on every direct call of the public \<^verbatim>\<open>ReHash\<close>, whatever the load.
  \<^verbatim>\<open>erase\<close>, \<^verbatim>\<open>clear\<close> and a write through a reference keep the bucket count.
\<close>

theorem bucket_count_and_load_factor:
  assumes "reachable s" and "s this = Some m"
  shows "length (table_f (UnorderedMap_init h)) = 1 \<and>
         1 \<le> length (table_f m) \<and>
         real (size_f m) / real (length (table_f m)) \<le> maxLoadFactor \<and>
         (\<exists>m'. insert_map p m = Inr m' \<and>
            real (size_f m') / real (length (table_f m')) \<le> maxLoadFactor \<and>
            length (table_f m') =
              (if find_map (fst p) m = Inr End \<and>
                  load_exceeded (size_f m + 1) (length (table_f m))
               then 2 * length (table_f m) else length (table_f m))) \<and>
         (\<exists>m'. erase k m = Inr m' \<and> length (table_f m') = length (table_f m)) \<and>
         (\<exists>m'. clear m = Inr m' \<and> length (table_f m') = length (table_f m)) \<and>
         (\<exists>r m'. operator_index dflt k m = Inr (r, m') \<and>
            (m' = m \<or> insert_map (k, dflt) m = Inr m')) \<and>
         (\<forall>r v m'. assign_through r v m = Inr m' \<longrightarrow> table_f m' = table_f m) \<and>
         (\<exists>m'. ReHash m = Inr m' \<and> length (table_f m') = 2 * length (table_f m) \<and>
            size_f m' = size_f m) \<and>
         operator_assign this this s = Inr s \<and>
         (\<forall>other b. other \<noteq> this \<and> s other = Some b \<longrightarrow>
            (\<exists>m1 m2. clear m = Inr m1 \<and> length (table_f m1) = length (table_f m) \<and>
               insert_range (traverse b) m1 = Inr m2 \<and>
               operator_assign this other s = Inr (s(this \<mapsto> m2)) \<and>
               length (table_f m) \<le> length (table_f m2) \<and>
               real (size_f m2) / real (length (table_f m2)) \<le> maxLoadFactor))"
proof -
  from reachable_valid[OF assms] have v: "valid m" and l: "load_ok m" by simp_all
  have B: "0 < length (table_f m)" using v by (simp add: valid_def)
  have 1: "1 \<le> length (table_f m)" using B by linarith
  have 2: "real (size_f m) / real (length (table_f m)) \<le> maxLoadFactor"
    using l by (simp only: load_le_iff[OF B] load_ok_def)
  have 3: "\<exists>m'. insert_map p m = Inr m' \<and>
            real (size_f m') / real (length (table_f m')) \<le> maxLoadFactor \<and>
            length (table_f m') =
              (if find_map (fst p) m = Inr End \<and>
                  load_exceeded (size_f m + 1) (length (table_f m))
               then 2 * length (table_f m) else length (table_f m))"
  proof -
    from insert_map_valid[OF v, of p] l obtain m' where
      m': "insert_map p m = Inr m'" "valid m'" "load_ok m'" by blast
    have B': "0 < length (table_f m')" using m'(2) by (simp add: valid_def)
    have a: "real (size_f m') / real (length (table_f m')) \<le> maxLoadFactor"
      using m'(3) by (simp only: load_le_iff[OF B'] load_ok_def)
    have b: "length (table_f m') =
              (if find_map (fst p) m = Inr End \<and>
                  load_exceeded (size_f m + 1) (length (table_f m))
               then 2 * length (table_f m) else length (table_f m))"
    proof (cases "fst p \<in> fst ` set (traverse m)")
      case True
      with find_map_total[OF v, of "fst p"] obtain a where a: "find_map (fst p) m = Inr (Node a)"
        by blast
      then have "insert_map (fst p, snd p) m = Inr m" by (rule insert_map_present) simp
      then show ?thesis using m'(1) a by simp
    next
      case False
      from insert_map_absent[OF v False, of "snd p"] m'(1) have
        "length (table_f m') = (if length (table_f m) < Suc (size_f m)
           then 2 * length (table_f m) else length (table_f m))" by auto
      then show ?thesis
        using find_map_absent(1)[OF v False] by (simp add: load_exceeded_iff[OF B])
    qed
    show ?thesis using m'(1) a b by blast
  qed
  have 4: "\<exists>m'. erase k m = Inr m' \<and> length (table_f m') = length (table_f m)"
  proof (cases "k \<in> fst ` set (traverse m)")
    case True
    then obtain a x where "(a, (k, x)) \<in> set (elements_f m)" by (rule key_present_node)
    from split_list[OF this] obtain xs ys where "elements_f m = xs @ (a, (k, x)) # ys" by blast
    from erase_present[OF v this] show ?thesis by blast
  next
    case False
    from erase_absent[OF v False] show ?thesis by simp
  qed
  from clear_valid'[OF v] obtain m1 where
    m1: "clear m = Inr m1" "valid m1" "size_f m1 = 0"
        "table_f m1 = replicate (length (table_f m)) []" by blast
  have l1: "length (table_f m1) = length (table_f m)" using m1(4) by simp
  have lo1: "load_ok m1" using m1(3) by (simp add: load_ok_def)
  have 5: "\<exists>m'. clear m = Inr m' \<and> length (table_f m') = length (table_f m)"
    using m1(1) l1 by blast
  have 6: "\<exists>r m'. operator_index dflt k m = Inr (r, m') \<and>
            (m' = m \<or> insert_map (k, dflt) m = Inr m')"
  proof (cases "k \<in> fst ` set (traverse m)")
    case True
    then obtain a x where "(a, (k, x)) \<in> set (elements_f m)" by (rule key_present_node)
    from operator_index_present[OF v this, of dflt] show ?thesis by blast
  next
    case False
    from operator_index_absent[OF v False, of dflt] show ?thesis by blast
  qed
  have 7: "\<forall>r v m'. assign_through r v m = Inr m' \<longrightarrow> table_f m' = table_f m"
    using assign_through_valid[OF v] by blast
  have 8: "\<exists>m'. ReHash m = Inr m' \<and> length (table_f m') = 2 * length (table_f m) \<and>
            size_f m' = size_f m"
  proof -
    from v have c: "chain_ok (elements_f m)" and ne: "table_f m \<noteq> []"
      and t: "table_ok (\<lambda>k. hash_f m k mod length (table_f m)) (elements_f m) (table_f m)"
      by (simp_all add: valid_def)
    from ReHash_ok[OF c ne t] obtain tbl' where
      "ReHash m = Inr (m\<lparr>table_f := tbl'\<rparr>)" "length tbl' = 2 * length (table_f m)" by blast
    then show ?thesis by (intro exI[of _ "m\<lparr>table_f := tbl'\<rparr>"]) simp
  qed
  have 9: "operator_assign this this s = Inr s"
    using assms(2) by (simp add: operator_assign_def)
  have 10: "\<exists>m1 m2. clear m = Inr m1 \<and> length (table_f m1) = length (table_f m) \<and>
               insert_range (traverse b) m1 = Inr m2 \<and>
               operator_assign this other s = Inr (s(this \<mapsto> m2)) \<and>
               length (table_f m) \<le> length (table_f m2) \<and>
               real (size_f m2) / real (length (table_f m2)) \<le> maxLoadFactor"
    if o: "other \<noteq> this \<and> s other = Some b" for other b
  proof -
    from insert_range_valid[OF m1(2), of "traverse b"] lo1 obtain m2 where
      m2: "insert_range (traverse b) m1 = Inr m2" "valid m2" "load_ok m2" by blast
    have B2: "0 < length (table_f m2)" using m2(2) by (simp add: valid_def)
    have a: "real (size_f m2) / real (length (table_f m2)) \<le> maxLoadFactor"
      using m2(3) by (simp only: load_le_iff[OF B2] load_ok_def)
    have g: "length (table_f m) \<le> length (table_f m2)"
      using insert_range_grows[OF m1(2) m2(1)] l1 by simp
    have "operator_assign this other s = Inr (s(this \<mapsto> m2))"
      using o assms(2) m1(1) m2(1) by (auto simp: operator_assign_def)
    then show ?thesis using m1(1) l1 m2(1) g a by blast
  qed
  have 0: "length (table_f (UnorderedMap_init h)) = 1" by (simp add: UnorderedMap_init_def)
  show ?thesis using 0 1 2 3 4 5 6 7 8 9 10 by blast
qed

theorem bucket_count_and_load_factor_witness:
  "reachable (Map.empty(0 \<mapsto> example_map)) \<and>
   (Map.empty(0 \<mapsto> example_map)) (0::nat) = Some example_map \<and>
   1 \<le> length (table_f example_map) \<and>
   real (size_f example_map) / real (length (table_f example_map)) \<le> maxLoadFactor \<and>
   (\<exists>m'. insert_map (3, 30) example_map = Inr m' \<and>
      real (size_f m') / real (length (table_f m')) \<le> maxLoadFactor \<and>
      length (table_f m') = 4) \<and>
   (\<exists>m'. erase 1 example_map = Inr m' \<and> length (table_f m') = 2) \<and>
   (\<exists>m'. clear example_map = Inr m' \<and> length (table_f m') = 2) \<and>
   (\<exists>m'. ReHash example_map = Inr m' \<and> length (table_f m') = 4)"
proof -
  have h: "(Map.empty(0 \<mapsto> example_map)) (0::nat) = Some example_map" by simp
  have f: "find_map 3 example_map = Inr End"
    by (rule find_map_absent(1)[OF valid_example]) (simp add: traverse_example)
  have l: "load_exceeded 3 2" by (simp add: load_exceeded_def maxLoadFactor_def)
  have t: "length (table_f example_map) = 2" "size_f example_map = 2"
    by (simp_all add: example_map_def)
  have "1 \<le> length (table_f example_map) \<and>
   real (size_f example_map) / real (length (table_f example_map)) \<le> maxLoadFactor \<and>
   (\<exists>m'. insert_map (3, 30) example_map = Inr m' \<and>
      real (size_f m') / real (length (table_f m')) \<le> maxLoadFactor \<and>
      length (table_f m') = 4) \<and>
   (\<exists>m'. erase 1 example_map = Inr m' \<and> length (table_f m') = 2) \<and>
   (\<exists>m'. clear example_map = Inr m' \<and> length (table_f m') = 2) \<and>
   (\<exists>m'. ReHash example_map = Inr m' \<and> length (table_f m') = 4)"
    using bucket_count_and_load_factor[OF reachable_example h, of "\<lambda>k. k" "(3, 30)" 1 0]
      f l
    by (simp add: t) blast
  then show ?thesis using reachable_example h by blast
qed

text \<open>
  Claim C1. In every state that constructions, \<^verbatim>\<open>insert\<close>, \<^verbatim>\<open>erase\<close>,
  \<^verbatim>\<open>operator[]\<close> (with writes through the reference it returns), \<^verbatim>\<open>clear\<close>, copy
  assignments and direct calls of \<^verbatim>\<open>ReHash\<close> lead to, every element of the chain of every map has exactly one anchor: there
  is one and only one entry of the table (a bucket \<open>b\<close> and an offset \<open>i\<close> in its list)
  whose next position in the chain is the node of the element. That entry is in the bucket
  \<^verbatim>\<open>hash_(key) % table_.size()\<close>, the node after it holds the element's key and value, and
  for the element at the front of the chain it is \<^verbatim>\<open>before_begin()\<close>.
\<close>

theorem anchors_invariant:
  assumes "reachable s" and "s this = Some m" and "(a, (k, x)) \<in> set (elements_f m)"
  shows "\<exists>b i. b < length (table_f m) \<and> i < length (table_f m ! b) \<and>
           next_fl (elements_f m) (table_f m ! b ! i) = Inr (Node a) \<and>
           deref (elements_f m) (Node a) = Inr (k, x) \<and>
           (\<forall>b' i'. b' < length (table_f m) \<and> i' < length (table_f m ! b') \<and>
               next_fl (elements_f m) (table_f m ! b' ! i') = Inr (Node a) \<longrightarrow> b' = b \<and> i' = i) \<and>
           b = hash_f m k mod length (table_f m) \<and>
           (begin_map m = Node a \<longrightarrow> table_f m ! b ! i = Before_begin)"
proof -
  from reachable_valid[OF assms(1,2)] have "valid m" by simp
  then show ?thesis using assms(3) by (rule anchor_exactly_one)
qed

theorem anchors_invariant_witness:
  "reachable (Map.empty(0 \<mapsto> example_map)) \<and>
   (Map.empty(0 \<mapsto> example_map)) (0::nat) = Some example_map \<and>
   (1, (2, 20)) \<in> set (elements_f example_map) \<and>
   (\<exists>b i. b < length (table_f example_map) \<and> i < length (table_f example_map ! b) \<and>
           next_fl (elements_f example_map) (table_f example_map ! b ! i) = Inr (Node 1) \<and>
           deref (elements_f example_map) (Node 1) = Inr (2, 20) \<and>
           (\<forall>b' i'. b' < length (table_f example_map) \<and> i' < length (table_f example_map ! b') \<and>
               next_fl (elements_f example_map) (table_f example_map ! b' ! i') = Inr (Node 1) \<longrightarrow>
               b' = b \<and> i' = i) \<and>
           b = hash_f example_map 2 mod length (table_f example_map) \<and>
           (begin_map example_map = Node 1 \<longrightarrow> table_f example_map ! b ! i = Before_begin))"
proof -
  have h: "(Map.empty(0 \<mapsto> example_map)) (0::nat) = Some example_map" by simp
  have e: "(1, (2, 20)) \<in> set (elements_f example_map)" by (simp add: example_map_def)
  from anchors_invariant[OF reachable_example h e] reachable_example h e
  show ?thesis by blast
qed



text \<open>
  Claim C2. \<^verbatim>\<open>ReHash\<close> on a valid map succeeds and changes the table only: chain (so
  the sequence of pairs), size and hash function are the ones from before, and the table has
  twice as many buckets. A bucket list \<open>b\<close> of the old table keeps, in their places and
  order, the entries of the elements whose bucket index under the doubled count is still
  \<open>b\<close>; its other entries, those of the elements whose index is now
  \<open>old count + b\<close>, are with the same value the entries of the new bucket
  \<open>old count + b\<close>. The map returned is valid: every entry is in the bucket
  \<^verbatim>\<open>hash_(key) % table_.size()\<close> of the grown table.
\<close>

theorem rehash_moves_anchors:
  assumes "valid m"
  shows "\<exists>m'. ReHash m = Inr m' \<and> valid m' \<and> elements_f m' = elements_f m \<and>
           traverse m' = traverse m \<and> size_f m' = size_f m \<and> hash_f m' = hash_f m \<and>
           length (table_f m') = 2 * length (table_f m) \<and>
           (\<forall>b < length (table_f m).
              table_f m' ! b =
                filter (\<lambda>q. anchor_bucket (hash_f m) (2 * length (table_f m)) (elements_f m) q = Some b)
                  (table_f m ! b) \<and>
              mset (table_f m' ! (length (table_f m) + b)) =
                mset (filter (\<lambda>q. anchor_bucket (hash_f m) (2 * length (table_f m)) (elements_f m) q =
                                   Some (length (table_f m) + b))
                  (table_f m ! b)) \<and>
              (\<forall>q \<in> set (table_f m ! b).
                 anchor_bucket (hash_f m) (2 * length (table_f m)) (elements_f m) q = Some b \<or>
                 anchor_bucket (hash_f m) (2 * length (table_f m)) (elements_f m) q =
                   Some (length (table_f m) + b)))"
proof -
  let ?ns = "elements_f m" and ?tbl = "table_f m" and ?hf = "hash_f m"
  let ?B = "length (table_f m)"
  let ?f1 = "\<lambda>k. ?hf k mod ?B" and ?f2 = "\<lambda>k. ?hf k mod (2 * ?B)"
  let ?L = "anchored Before_begin ?ns"
  let ?ab = "anchor_bucket ?hf (2 * ?B) ?ns"
  from assms have c: "chain_ok ?ns" and t: "table_ok ?f1 ?ns ?tbl" and ne: "?tbl \<noteq> []"
    and sz: "size_f m = length ?ns"
    by (simp_all add: valid_def)
  have B: "0 < ?B" using ne by simp
  have da: "distinct (map fst ?ns)" using c by (simp add: chain_ok_def)
  from ReHash_ok[OF c ne t] obtain tbl' where
    r: "ReHash m = Inr (m\<lparr>table_f := tbl'\<rparr>)" "length tbl' = 2 * ?B"
       "table_ok (\<lambda>k. ?hf k mod length tbl') ?ns tbl'" by blast
  have t2: "table_ok ?f2 ?ns tbl'" using r(3) r(2) by simp
  have "tbl' \<noteq> []" using r(2) B by auto
  then have v': "valid (m\<lparr>table_f := tbl'\<rparr>)" using c sz r(3) by (simp add: valid_def)
  have loop: "ReHash_loop ?hf ?ns ?B ?ns (?tbl @ replicate ?B []) = Inr tbl'"
    by (rule ReHash_loop_of[OF r(1)])
  have per: "tbl' ! b = filter (\<lambda>q. ?ab q = Some b) (?tbl ! b) \<and>
             mset (tbl' ! (?B + b)) = mset (filter (\<lambda>q. ?ab q = Some (?B + b)) (?tbl ! b)) \<and>
             (\<forall>q \<in> set (?tbl ! b). ?ab q = Some b \<or> ?ab q = Some (?B + b))"
    if b: "b < ?B" for b
  proof (intro conjI)
    have l0: "length (?tbl @ replicate ?B []) = 2 * ?B" by simp
    have "?ns = [] @ ?ns" by simp
    from ReHash_loop_low[OF c B this l0 table_ok_resize[OF t ne] loop b]
    have "tbl' ! b = filter (\<lambda>q. q \<notin> set (moving ?hf ?B ?ns ?ns)) (?tbl ! b)"
      using b by (simp add: nth_append)
    also have "\<dots> = filter (\<lambda>q. ?ab q = Some b) (?tbl ! b)"
    proof (rule filter_cong[OF refl])
      fix q assume "q \<in> set (?tbl ! b)"
      with in_bucket[OF t b] obtain k where k: "(q, k) \<in> set ?L" "?f1 k = b" by blast
      have ab: "?ab q = Some (?hf k mod (2 * ?B))" by (rule anchor_bucket_anchored[OF da k(1)])
      have "q \<in> set (moving ?hf ?B ?ns ?ns) \<longleftrightarrow> ?hf k mod ?B \<noteq> ?hf k mod (2 * ?B)"
      proof
        assume "q \<in> set (moving ?hf ?B ?ns ?ns)"
        then obtain k' where k': "(q, k') \<in> set ?L" "?hf k' mod ?B \<noteq> ?hf k' mod (2 * ?B)"
          unfolding in_moving by blast
        from anchored_key_unique[OF da k'(1) k(1)] k'(2)
        show "?hf k mod ?B \<noteq> ?hf k mod (2 * ?B)" by simp
      next
        assume "?hf k mod ?B \<noteq> ?hf k mod (2 * ?B)"
        then show "q \<in> set (moving ?hf ?B ?ns ?ns)"
          unfolding in_moving using k(1) anchored_key_in_chain[OF k(1)] by blast
      qed
      then show "(q \<notin> set (moving ?hf ?B ?ns ?ns)) = (?ab q = Some b)"
        using ab k(2) by auto
    qed
    finally show "tbl' ! b = filter (\<lambda>q. ?ab q = Some b) (?tbl ! b)" .
  next
    have nb: "?B + b < length tbl'" using b r(2) by simp
    have new: "mset (tbl' ! (?B + b)) = mset (bucket_anchors ?f2 (?B + b) ?ns)"
      by (rule table_okD[OF t2 nb])
    have old: "mset (?tbl ! b) = mset (bucket_anchors ?f1 b ?ns)"
      by (rule table_okD[OF t b])
    have "filter (\<lambda>q. ?ab q = Some (?B + b)) (bucket_anchors ?f1 b ?ns) =
          map fst (filter (\<lambda>pk. ?f1 (snd pk) = b \<and> ?ab (fst pk) = Some (?B + b)) ?L)"
      by (simp add: bucket_anchors_def filter_map comp_def)
    also have "filter (\<lambda>pk. ?f1 (snd pk) = b \<and> ?ab (fst pk) = Some (?B + b)) ?L =
               filter (\<lambda>pk. ?f2 (snd pk) = ?B + b) ?L"
    proof (rule filter_cong[OF refl])
      fix pk assume "pk \<in> set ?L"
      then have "(fst pk, snd pk) \<in> set ?L" by simp
      from anchor_bucket_anchored[OF da this]
      have ab: "?ab (fst pk) = Some (?hf (snd pk) mod (2 * ?B))" .
      have "?hf (snd pk) mod ?B = b" if "?hf (snd pk) mod (2 * ?B) = ?B + b"
      proof -
        have "?hf (snd pk) mod ?B = (?hf (snd pk) mod (2 * ?B)) mod ?B"
          by (simp add: mod_mod_cancel)
        then show ?thesis using that b by simp
      qed
      then show "(?f1 (snd pk) = b \<and> ?ab (fst pk) = Some (?B + b)) = (?f2 (snd pk) = ?B + b)"
        using ab by auto
    qed
    finally have "filter (\<lambda>q. ?ab q = Some (?B + b)) (bucket_anchors ?f1 b ?ns) =
                  bucket_anchors ?f2 (?B + b) ?ns"
      by (simp add: bucket_anchors_def)
    then have "mset (bucket_anchors ?f2 (?B + b) ?ns) =
               filter_mset (\<lambda>q. ?ab q = Some (?B + b)) (mset (bucket_anchors ?f1 b ?ns))"
      by (metis mset_filter)
    then show "mset (tbl' ! (?B + b)) = mset (filter (\<lambda>q. ?ab q = Some (?B + b)) (?tbl ! b))"
      using new old by (simp only: mset_filter)
  next
    show "\<forall>q \<in> set (?tbl ! b). ?ab q = Some b \<or> ?ab q = Some (?B + b)"
    proof
      fix q assume "q \<in> set (?tbl ! b)"
      with in_bucket[OF t b] obtain k where k: "(q, k) \<in> set ?L" "?f1 k = b" by blast
      have ab: "?ab q = Some (?hf k mod (2 * ?B))" by (rule anchor_bucket_anchored[OF da k(1)])
      from mod_double_cases[OF B, of "?hf k"] k(2) ab
      show "?ab q = Some b \<or> ?ab q = Some (?B + b)" by auto
    qed
  qed
  show ?thesis
    using r(1,2) v' per by (intro exI[of _ "m\<lparr>table_f := tbl'\<rparr>"]) (simp add: traverse_def)
qed

theorem rehash_moves_anchors_witness:
  "valid example_map \<and>
   (\<exists>m'. ReHash example_map = Inr m' \<and> valid m' \<and>
      traverse m' = [(2, 20), (1, 10)] \<and> size_f m' = 2 \<and> length (table_f m') = 4 \<and>
      table_f m' ! 0 = [] \<and> table_f m' ! 1 = [Node 1] \<and>
      mset (table_f m' ! 2) = {#Before_begin#} \<and> mset (table_f m' ! 3) = {#})"
proof -
  have ab: "anchor_bucket (\<lambda>k. k) 4 (elements_f example_map) Before_begin = Some (Suc (Suc 0))"
    "anchor_bucket (\<lambda>k. k) 4 (elements_f example_map) (Node (Suc 0)) = Some (Suc 0)"
    by (simp_all add: anchor_bucket_def key_after_def example_map_def begin_fl_def)
  have f: "table_f example_map = [[Before_begin], [Node (Suc 0)]]" "hash_f example_map = (\<lambda>k. k)"
    "size_f example_map = 2"
    by (simp_all add: example_map_def)
  from rehash_moves_anchors[OF valid_example] obtain m' where
    m': "ReHash example_map = Inr m'" "valid m'" "traverse m' = traverse example_map"
        "size_f m' = size_f example_map" "length (table_f m') = 2 * length (table_f example_map)"
    and per: "\<forall>b < length (table_f example_map).
              table_f m' ! b =
                filter (\<lambda>q. anchor_bucket (hash_f example_map) (2 * length (table_f example_map))
                             (elements_f example_map) q = Some b)
                  (table_f example_map ! b) \<and>
              mset (table_f m' ! (length (table_f example_map) + b)) =
                mset (filter (\<lambda>q. anchor_bucket (hash_f example_map) (2 * length (table_f example_map))
                                   (elements_f example_map) q =
                                   Some (length (table_f example_map) + b))
                  (table_f example_map ! b))"
    by blast
  have l: "(0::nat) < length (table_f example_map)" "Suc 0 < length (table_f example_map)"
    by (simp_all add: f)
  have four: "2 * length (table_f example_map) = 4" by (simp add: f)
  have b0: "table_f m' ! 0 = [] \<and> mset (table_f m' ! Suc (Suc 0)) = {#Before_begin#}"
    using per[rule_format, OF l(1)] unfolding four f(2) by (simp add: f(1) ab)
  have b1: "table_f m' ! Suc 0 = [Node (Suc 0)] \<and> mset (table_f m' ! Suc (Suc (Suc 0))) = {#}"
    using per[rule_format, OF l(2)] unfolding four f(2) by (simp add: f(1) ab)
  have "table_f m' ! 0 = []" "table_f m' ! 1 = [Node 1]"
    "mset (table_f m' ! 2) = {#Before_begin#}" "mset (table_f m' ! 3) = {#}"
    using b0 b1 by (simp_all add: numeral_2_eq_2 numeral_3_eq_3)
  moreover have "traverse m' = [(2, 20), (1, 10)]" "size_f m' = 2" "length (table_f m') = 4"
    using m'(3,4,5) by (simp_all add: f traverse_example)
  ultimately have "\<exists>m'. ReHash example_map = Inr m' \<and> valid m' \<and>
      traverse m' = [(2, 20), (1, 10)] \<and> size_f m' = 2 \<and> length (table_f m') = 4 \<and>
      table_f m' ! 0 = [] \<and> table_f m' ! 1 = [Node 1] \<and>
      mset (table_f m' ! 2) = {#Before_begin#} \<and> mset (table_f m' ! 3) = {#}"
    using m'(1,2) by blast
  then show ?thesis using valid_example by blast
qed

end
